theory Spec2Isabelle
  imports Main
begin

section \<open>Program representation\<close>

text \<open>
  The checker (consistency-checker.cpp) keeps everything in global arrays. An instruction
  is the struct \<open>Instr\<close>; the field \<open>value\<close> is called \<open>val\<close> here. The values are only
  copied and printed, never computed with, so they are plain integers.
  \<open>program[t][i]\<close> with \<open>num_threads\<close> and \<open>num_instrs[t]\<close> is a list of threads, each a
  list of instructions: \<open>num_threads = length prog\<close>, \<open>num_instrs[t] = length (prog ! t)\<close>.
\<close>

record instr =
  store :: bool
  mem :: string
  val :: int

type_synonym program = "instr list list"

text \<open>
  Failures of the source: \<open>assert(false)\<close> at the end of \<open>get_memvar\<close> and
  \<open>update_memvar\<close>, \<open>assert(false)\<close> at the end of \<open>get_prevstore\<close>, and
  \<open>assert(!program[thread][instr].store)\<close> at the head of the three previous-store
  functions. \<open>Out_of_fuel\<close> is not a failure of the source: the recursive searches carry
  a bound on the depth of nested calls, and this is the result when the bound is reached.
\<close>

datatype error = Unknown_memvar | No_prevstore | Not_a_load | Out_of_fuel

text \<open>
  The nested loops \<open>for t < num_threads: for i < num_instrs[t]\<close>, which occur in
  \<open>reset_executed\<close>, \<open>all_executed\<close>, the graph builders, \<open>print_loads\<close> and both
  searches, visit these index pairs in this order.
\<close>

definition positions :: "program \<Rightarrow> (nat \<times> nat) list" where
  "positions prog =
     concat (map (\<lambda>t. map (\<lambda>i. (t, i)) [0..<length (prog ! t)]) [0..<length prog])"

section \<open>Program order\<close>

text \<open>
  The arrays \<open>po\<close>, \<open>executed\<close> and \<open>loadvalues\<close> are total functions of their indices;
  the code reads and writes them only below \<open>num_threads\<close> and \<open>num_instrs[t]\<close>. The
  sizes \<open>MAX_THREADS\<close> and \<open>MAX_INSTRUCTIONS\<close> of the arrays are not represented: what is
  proved holds for programs of any size.
  \<open>po t d i\<close> is \<open>po[t][d][i]\<close>: instruction \<open>d\<close> of thread \<open>t\<close> waits for instruction \<open>i\<close>.
\<close>

type_synonym po_matrix = "nat \<Rightarrow> nat \<Rightarrow> nat \<Rightarrow> bool"

definition po_set :: "po_matrix \<Rightarrow> nat \<Rightarrow> nat \<Rightarrow> nat \<Rightarrow> bool \<Rightarrow> po_matrix" where
  "po_set p t d i b = p(t := (p t)(d := (p t d)(i := b)))"

definition add_po_ibm :: "program \<Rightarrow> nat \<Rightarrow> nat \<Rightarrow> po_matrix \<Rightarrow> po_matrix" where
  "add_po_ibm prog t i p =
     foldl (\<lambda>q d.
         let q1 = po_set q t d i False in
         if store (prog ! t ! i) then
           (if store (prog ! t ! d) then po_set q1 t d i True
            else if mem (prog ! t ! i) = mem (prog ! t ! d) then po_set q1 t d i True
            else q1)
         else po_set q1 t d i True)
       (foldl (\<lambda>q d. po_set q t d i False) p [0..<i + 1])
       [i + 1..<length (prog ! t)]"

definition add_po_tso :: "program \<Rightarrow> nat \<Rightarrow> nat \<Rightarrow> po_matrix \<Rightarrow> po_matrix" where
  "add_po_tso prog t i p =
     foldl (\<lambda>q d.
         let q1 = po_set q t d i False in
         if store (prog ! t ! i) then
           (if store (prog ! t ! d) then po_set q1 t d i True else q1)
         else po_set q1 t d i True)
       (foldl (\<lambda>q d. po_set q t d i False) p [0..<i + 1])
       [i + 1..<length (prog ! t)]"

definition remove_po :: "program \<Rightarrow> nat \<Rightarrow> nat \<Rightarrow> po_matrix \<Rightarrow> po_matrix" where
  "remove_po prog t i p =
     foldl (\<lambda>q d. po_set q t d i False) p [i + 1..<length (prog ! t)]"

definition build_po_graph_ibm :: "program \<Rightarrow> po_matrix \<Rightarrow> po_matrix" where
  "build_po_graph_ibm prog p = foldl (\<lambda>q (t, i). add_po_ibm prog t i q) p (positions prog)"

definition build_po_graph_tso :: "program \<Rightarrow> po_matrix \<Rightarrow> po_matrix" where
  "build_po_graph_tso prog p = foldl (\<lambda>q (t, i). add_po_tso prog t i q) p (positions prog)"

definition has_po_dependencies :: "program \<Rightarrow> po_matrix \<Rightarrow> nat \<Rightarrow> nat \<Rightarrow> bool" where
  "has_po_dependencies prog p thread instr =
     list_ex (\<lambda>d. p thread instr d) [0..<length (prog ! thread)]"

section \<open>Executed markers\<close>

type_synonym marks = "nat \<Rightarrow> nat \<Rightarrow> bool"

definition reset_executed :: "program \<Rightarrow> marks \<Rightarrow> marks" where
  "reset_executed prog ex =
     foldl (\<lambda>e (t, i). e(t := (e t)(i := False))) ex (positions prog)"

definition all_executed :: "program \<Rightarrow> marks \<Rightarrow> bool" where
  "all_executed prog ex = list_all (\<lambda>(t, i). ex t i) (positions prog)"

section \<open>Memory and loaded values\<close>

text \<open>
  \<open>memvars\<close> and \<open>memvalues\<close> are parallel arrays filled up to \<open>num_memvars\<close>: a list of
  (name, value) pairs in the order of registration. All three lookups scan from
  position 0 and stop at the first name that matches.
\<close>

type_synonym memory = "(string \<times> int) list"

fun insert_memvar :: "memory \<Rightarrow> string \<Rightarrow> memory" where
  "insert_memvar [] var = [(var, 0)]"
| "insert_memvar ((m, v) # rest) var =
     (if m = var then (m, v) # rest else (m, v) # insert_memvar rest var)"

fun get_memvar :: "memory \<Rightarrow> string \<Rightarrow> error + int" where
  "get_memvar [] var = Inl Unknown_memvar"
| "get_memvar ((m, v) # rest) var = (if m = var then Inr v else get_memvar rest var)"

fun update_memvar :: "memory \<Rightarrow> string \<Rightarrow> int \<Rightarrow> error + (int \<times> memory)" where
  "update_memvar [] var x = Inl Unknown_memvar"
| "update_memvar ((m, v) # rest) var x =
     (if m = var then Inr (v, (m, x) # rest)
      else (case update_memvar rest var x of
              Inl e \<Rightarrow> Inl e
            | Inr (aux, rest') \<Rightarrow> Inr (aux, (m, v) # rest')))"

type_synonym loads = "nat \<Rightarrow> nat \<Rightarrow> int"

definition update_load :: "loads \<Rightarrow> nat \<Rightarrow> nat \<Rightarrow> int \<Rightarrow> int \<times> loads" where
  "update_load lv thread instr x = (lv thread instr, lv(thread := (lv thread)(instr := x)))"

text \<open>\<open>out << int\<close>: decimal digits, with a leading minus sign for a negative number.\<close>

fun digits10 :: "nat \<Rightarrow> string" where
  "digits10 n =
     (if n < 10 then [''0123456789'' ! n]
      else digits10 (n div 10) @ [''0123456789'' ! (n mod 10)])"

declare digits10.simps [simp del]

definition show_int :: "int \<Rightarrow> string" where
  "show_int k = (if k < 0 then CHR ''-'' # digits10 (nat (- k)) else digits10 (nat k))"

definition print_mem :: "memory \<Rightarrow> string" where
  "print_mem m = concat (map (\<lambda>(name, v). ''['' @ name @ '']=='' @ show_int v @ ''; '') m)"

definition print_loads :: "program \<Rightarrow> loads \<Rightarrow> string" where
  "print_loads prog lv =
     concat (map (\<lambda>(t, i).
        if \<not> store (prog ! t ! i)
        then mem (prog ! t ! i) @ ''=='' @ show_int (lv t i) @ ''; ''
        else []) (positions prog))"

section \<open>The searches\<close>

text \<open>
  The globals that the searches change, apart from the two solution sets, which are
  passed beside the state.
\<close>

record state =
  po :: po_matrix
  executed :: marks
  memory :: memory
  loadvalues :: loads

definition add_possible_execution_ibm :: "program \<Rightarrow> state \<Rightarrow> string set \<Rightarrow> string set" where
  "add_possible_execution_ibm prog st solutions_ibm =
     insert (print_mem (memory st) @ print_loads prog (loadvalues st)) solutions_ibm"

definition add_possible_execution_tso :: "program \<Rightarrow> state \<Rightarrow> string set \<Rightarrow> string set" where
  "add_possible_execution_tso prog st solutions_tso =
     insert (print_mem (memory st) @ print_loads prog (loadvalues st)) solutions_tso"

text \<open>
  Lines 214 to 223 of \<open>get_possible_executions_ibm\<close>: mark the instruction executed,
  apply its effect, remove its edges. The result is \<open>old_val\<close> and the new state.
\<close>

definition ibm_execute :: "program \<Rightarrow> nat \<Rightarrow> nat \<Rightarrow> state \<Rightarrow> error + (int \<times> state)" where
  "ibm_execute prog t i st =
     (let st1 = st\<lparr>executed := (executed st)(t := (executed st t)(i := True))\<rparr> in
      (case
         (if store (prog ! t ! i) then
            (case update_memvar (memory st1) (mem (prog ! t ! i)) (val (prog ! t ! i)) of
               Inl e \<Rightarrow> Inl e
             | Inr (old_val, m) \<Rightarrow> Inr (old_val, st1\<lparr>memory := m\<rparr>))
          else
            (case get_memvar (memory st1) (mem (prog ! t ! i)) of
               Inl e \<Rightarrow> Inl e
             | Inr x \<Rightarrow>
                 (case update_load (loadvalues st1) t i x of
                    (old_val, lv) \<Rightarrow> Inr (old_val, st1\<lparr>loadvalues := lv\<rparr>))))
       of Inl e \<Rightarrow> Inl e
        | Inr (old_val, st2) \<Rightarrow> Inr (old_val, st2\<lparr>po := remove_po prog t i (po st2)\<rparr>)))"

text \<open>Lines 232 to 240: the undo.\<close>

definition ibm_reverse :: "program \<Rightarrow> nat \<Rightarrow> nat \<Rightarrow> int \<Rightarrow> state \<Rightarrow> error + state" where
  "ibm_reverse prog t i old_val st =
     (let st1 = st\<lparr>po := add_po_ibm prog t i (po st)\<rparr> in
      (case
         (if store (prog ! t ! i) then
            (case update_memvar (memory st1) (mem (prog ! t ! i)) old_val of
               Inl e \<Rightarrow> Inl e
             | Inr (_, m) \<Rightarrow> Inr (st1\<lparr>memory := m\<rparr>))
          else Inr (st1\<lparr>loadvalues := snd (update_load (loadvalues st1) t i 0)\<rparr>))
       of Inl e \<Rightarrow> Inl e
        | Inr st2 \<Rightarrow> Inr (st2\<lparr>executed := (executed st2)(t := (executed st2 t)(i := False))\<rparr>)))"

text \<open>
  \<open>get_possible_executions_ibm\<close>. The second argument of \<open>gpe_ibm\<close> is the list of index
  pairs that the two loops have still to visit; a call of the source function starts with
  all of them. The first argument bounds the depth of the nested recursive calls.
\<close>

fun gpe_ibm :: "nat \<Rightarrow> program \<Rightarrow> (nat \<times> nat) list \<Rightarrow> state \<Rightarrow> string set
                  \<Rightarrow> error + (state \<times> string set)" where
  "gpe_ibm fuel prog [] st sols = Inr (st, sols)"
| "gpe_ibm fuel prog ((t, i) # rest) st sols =
     (if \<not> executed st t i \<and> \<not> has_po_dependencies prog (po st) t i then
        (case ibm_execute prog t i st of
           Inl e \<Rightarrow> Inl e
         | Inr (old_val, st1) \<Rightarrow>
             (case
                (if all_executed prog (executed st1)
                 then Inr (st1, add_possible_execution_ibm prog st1 sols)
                 else (case fuel of
                         0 \<Rightarrow> Inl Out_of_fuel
                       | Suc n \<Rightarrow> gpe_ibm n prog (positions prog) st1 sols))
              of Inl e \<Rightarrow> Inl e
               | Inr (st2, sols2) \<Rightarrow>
                   (case ibm_reverse prog t i old_val st2 of
                      Inl e \<Rightarrow> Inl e
                    | Inr st3 \<Rightarrow> gpe_ibm fuel prog rest st3 sols2)))
      else gpe_ibm fuel prog rest st sols)"

definition get_possible_executions_ibm ::
  "nat \<Rightarrow> program \<Rightarrow> state \<Rightarrow> string set \<Rightarrow> error + (state \<times> string set)" where
  "get_possible_executions_ibm fuel prog st sols = gpe_ibm fuel prog (positions prog) st sols"

text \<open>
  The three previous-store functions scan \<open>i = instr - 1\<close> down to \<open>0\<close>; the last
  argument of the scanning functions is \<open>i + 1\<close>.
\<close>

primrec is_prevstore_from :: "instr list \<Rightarrow> string \<Rightarrow> nat \<Rightarrow> bool" where
  "is_prevstore_from th m 0 = False"
| "is_prevstore_from th m (Suc i) =
     (if store (th ! i) \<and> mem (th ! i) = m then True else is_prevstore_from th m i)"

definition is_prevstore :: "program \<Rightarrow> nat \<Rightarrow> nat \<Rightarrow> error + bool" where
  "is_prevstore prog thread instr =
     (if store (prog ! thread ! instr) then Inl Not_a_load
      else Inr (is_prevstore_from (prog ! thread) (mem (prog ! thread ! instr)) instr))"

primrec is_prevstore_executed_from ::
  "instr list \<Rightarrow> (nat \<Rightarrow> bool) \<Rightarrow> string \<Rightarrow> nat \<Rightarrow> bool" where
  "is_prevstore_executed_from th ex m 0 = False"
| "is_prevstore_executed_from th ex m (Suc i) =
     (if store (th ! i) \<and> mem (th ! i) = m
      then (if ex i then True else is_prevstore_executed_from th ex m i)
      else is_prevstore_executed_from th ex m i)"

definition is_prevstore_executed :: "program \<Rightarrow> marks \<Rightarrow> nat \<Rightarrow> nat \<Rightarrow> error + bool" where
  "is_prevstore_executed prog ex thread instr =
     (if store (prog ! thread ! instr) then Inl Not_a_load
      else Inr (is_prevstore_executed_from (prog ! thread) (ex thread)
                  (mem (prog ! thread ! instr)) instr))"

primrec get_prevstore_from :: "instr list \<Rightarrow> string \<Rightarrow> nat \<Rightarrow> error + int" where
  "get_prevstore_from th m 0 = Inl No_prevstore"
| "get_prevstore_from th m (Suc i) =
     (if store (th ! i) \<and> mem (th ! i) = m then Inr (val (th ! i))
      else get_prevstore_from th m i)"

definition get_prevstore :: "program \<Rightarrow> nat \<Rightarrow> nat \<Rightarrow> error + int" where
  "get_prevstore prog thread instr =
     (if store (prog ! thread ! instr) then Inl Not_a_load
      else get_prevstore_from (prog ! thread) (mem (prog ! thread ! instr)) instr)"

text \<open>
  The condition \<open>is_prevstore(t, i) && !is_prevstore_executed(t, i)\<close> of lines 297 and
  311, with the short-circuit of \<open>&&\<close>.
\<close>

definition prevstore_pending :: "program \<Rightarrow> marks \<Rightarrow> nat \<Rightarrow> nat \<Rightarrow> error + bool" where
  "prevstore_pending prog ex t i =
     (case is_prevstore prog t i of
        Inl e \<Rightarrow> Inl e
      | Inr b \<Rightarrow>
          if b then
            (case is_prevstore_executed prog ex t i of
               Inl e \<Rightarrow> Inl e
             | Inr b' \<Rightarrow> Inr (\<not> b'))
          else Inr False)"

text \<open>
  Lines 288 to 302 of \<open>get_possible_executions_tso\<close>: mark executed, remove the edges,
  read \<open>old_val\<close>, apply the effect.
\<close>

definition tso_execute :: "program \<Rightarrow> nat \<Rightarrow> nat \<Rightarrow> state \<Rightarrow> error + (int \<times> state)" where
  "tso_execute prog t i st =
     (let st1 = st\<lparr>executed := (executed st)(t := (executed st t)(i := True))\<rparr>;
          st2 = st1\<lparr>po := remove_po prog t i (po st1)\<rparr>
      in
      (case get_memvar (memory st2) (mem (prog ! t ! i)) of
         Inl e \<Rightarrow> Inl e
       | Inr old_val \<Rightarrow>
           if store (prog ! t ! i) then
             (case update_memvar (memory st2) (mem (prog ! t ! i)) (val (prog ! t ! i)) of
                Inl e \<Rightarrow> Inl e
              | Inr (_, m) \<Rightarrow> Inr (old_val, st2\<lparr>memory := m\<rparr>))
           else
             (case prevstore_pending prog (executed st2) t i of
                Inl e \<Rightarrow> Inl e
              | Inr b \<Rightarrow>
                  if b then
                    (case get_prevstore prog t i of
                       Inl e \<Rightarrow> Inl e
                     | Inr x \<Rightarrow>
                         Inr (old_val,
                              st2\<lparr>loadvalues := snd (update_load (loadvalues st2) t i x)\<rparr>))
                  else
                    (case get_memvar (memory st2) (mem (prog ! t ! i)) of
                       Inl e \<Rightarrow> Inl e
                     | Inr x \<Rightarrow>
                         Inr (old_val,
                              st2\<lparr>loadvalues := snd (update_load (loadvalues st2) t i x)\<rparr>)))))"

text \<open>
  Line 311, the condition of the second recursion, and line 312, the load value set
  before it: \<open>None\<close> when the condition is false.
\<close>

definition tso_again :: "program \<Rightarrow> nat \<Rightarrow> nat \<Rightarrow> state \<Rightarrow> error + state option" where
  "tso_again prog t i st =
     (if \<not> store (prog ! t ! i) then
        (case prevstore_pending prog (executed st) t i of
           Inl e \<Rightarrow> Inl e
         | Inr b \<Rightarrow>
             if b then
               (case get_prevstore prog t i of
                  Inl e \<Rightarrow> Inl e
                | Inr x \<Rightarrow>
                    Inr (Some (st\<lparr>loadvalues := snd (update_load (loadvalues st) t i x)\<rparr>)))
             else Inr None)
      else Inr None)"

text \<open>Lines 321 to 328: the undo.\<close>

definition tso_reverse :: "program \<Rightarrow> nat \<Rightarrow> nat \<Rightarrow> int \<Rightarrow> state \<Rightarrow> error + state" where
  "tso_reverse prog t i old_val st =
     (case
        (if store (prog ! t ! i) then
           (case update_memvar (memory st) (mem (prog ! t ! i)) old_val of
              Inl e \<Rightarrow> Inl e
            | Inr (_, m) \<Rightarrow> Inr (st\<lparr>memory := m\<rparr>))
         else Inr (st\<lparr>loadvalues := snd (update_load (loadvalues st) t i 0)\<rparr>))
      of Inl e \<Rightarrow> Inl e
       | Inr st1 \<Rightarrow>
           Inr (st1\<lparr>po := add_po_tso prog t i (po st1),
                    executed := (executed st1)(t := (executed st1 t)(i := False))\<rparr>))"

fun gpe_tso :: "nat \<Rightarrow> program \<Rightarrow> (nat \<times> nat) list \<Rightarrow> state \<Rightarrow> string set
                  \<Rightarrow> error + (state \<times> string set)" where
  "gpe_tso fuel prog [] st sols = Inr (st, sols)"
| "gpe_tso fuel prog ((t, i) # rest) st sols =
     (if \<not> executed st t i \<and> \<not> has_po_dependencies prog (po st) t i then
        (case tso_execute prog t i st of
           Inl e \<Rightarrow> Inl e
         | Inr (old_val, st1) \<Rightarrow>
             (case
                (if all_executed prog (executed st1)
                 then Inr (st1, add_possible_execution_tso prog st1 sols)
                 else (case fuel of
                         0 \<Rightarrow> Inl Out_of_fuel
                       | Suc n \<Rightarrow> gpe_tso n prog (positions prog) st1 sols))
              of Inl e \<Rightarrow> Inl e
               | Inr (st2, sols2) \<Rightarrow>
                   (case
                      (case tso_again prog t i st2 of
                         Inl e \<Rightarrow> Inl e
                       | Inr None \<Rightarrow> Inr (st2, sols2)
                       | Inr (Some st3) \<Rightarrow>
                           (if all_executed prog (executed st3)
                            then Inr (st3, add_possible_execution_tso prog st3 sols2)
                            else (case fuel of
                                    0 \<Rightarrow> Inl Out_of_fuel
                                  | Suc n \<Rightarrow> gpe_tso n prog (positions prog) st3 sols2)))
                    of Inl e \<Rightarrow> Inl e
                     | Inr (st4, sols4) \<Rightarrow>
                         (case tso_reverse prog t i old_val st4 of
                            Inl e \<Rightarrow> Inl e
                          | Inr st5 \<Rightarrow> gpe_tso fuel prog rest st5 sols4))))
      else gpe_tso fuel prog rest st sols)"

definition get_possible_executions_tso ::
  "nat \<Rightarrow> program \<Rightarrow> state \<Rightarrow> string set \<Rightarrow> error + (state \<times> string set)" where
  "get_possible_executions_tso fuel prog st sols = gpe_tso fuel prog (positions prog) st sols"

section \<open>The run of main\<close>

text \<open>
  What the reading loop of \<open>main\<close> leaves in the globals for a program whose threads are
  all closed by a separator line: every instruction has passed through \<open>insert_memvar\<close>
  in reading order, and the other arrays hold the zeros of static initialisation.
\<close>

definition loaded_memory :: "program \<Rightarrow> memory" where
  "loaded_memory prog = foldl (\<lambda>m ins. insert_memvar m (mem ins)) [] (concat prog)"

definition loaded_state :: "program \<Rightarrow> state" where
  "loaded_state prog =
     \<lparr>po = (\<lambda>t d i. False), executed = (\<lambda>t i. False),
      memory = loaded_memory prog, loadvalues = (\<lambda>t i. 0)\<rparr>"

text \<open>
  Lines 404 to 417 of \<open>main\<close>, from a given state of the globals: the store-atomic search,
  then the relaxed search. The result is \<open>(solutions_ibm, solutions_tso)\<close>.
\<close>

definition run_models :: "nat \<Rightarrow> program \<Rightarrow> state \<Rightarrow> error + (string set \<times> string set)" where
  "run_models fuel prog st0 =
     (let st1 = st0\<lparr>executed := reset_executed prog (executed st0)\<rparr>;
          st2 = st1\<lparr>po := build_po_graph_ibm prog (po st1)\<rparr>
      in
      (case get_possible_executions_ibm fuel prog st2 {} of
         Inl e \<Rightarrow> Inl e
       | Inr (st3, solutions_ibm) \<Rightarrow>
           (let st4 = st3\<lparr>executed := reset_executed prog (executed st3)\<rparr>;
                st5 = st4\<lparr>po := build_po_graph_tso prog (po st4)\<rparr>
            in
            (case get_possible_executions_tso fuel prog st5 {} of
               Inl e \<Rightarrow> Inl e
             | Inr (st6, solutions_tso) \<Rightarrow> Inr (solutions_ibm, solutions_tso)))))"

definition main_solutions :: "nat \<Rightarrow> program \<Rightarrow> error + (string set \<times> string set)" where
  "main_solutions fuel prog = run_models fuel prog (loaded_state prog)"

text \<open>
  Lines 419 to 431: a relaxed outcome is printed with a star when no element of
  \<open>solutions_ibm\<close> compares equal to it.
\<close>

definition starred :: "string set \<Rightarrow> string \<Rightarrow> bool" where
  "starred solutions_ibm out = (\<not> (\<exists>out2 \<in> solutions_ibm. out = out2))"

section \<open>Notions used in the proofs\<close>

text \<open>
  None of the following is in the source. \<open>ibm_edge\<close> and \<open>tso_edge\<close> are the edges that
  \<open>add_po_ibm\<close> and \<open>add_po_tso\<close> insert. \<open>po_consistent\<close>, \<open>loads_zero\<close> and
  \<open>registered\<close> are the three parts of the invariant of the searches: the matrix holds
  exactly the edges towards instructions that are not executed, an instruction that is
  not executed has load value 0, and every location of the program is a registered memory
  variable. \<open>ibm_sol\<close> and \<open>tso_sol\<close> describe the outcomes reachable from a state by
  executing eligible instructions until all are executed. \<open>ibm_continue\<close> and
  \<open>tso_continue\<close> name the block "Check end or recursive" of the two searches.
\<close>

definition ibm_edge :: "program \<Rightarrow> nat \<Rightarrow> nat \<Rightarrow> nat \<Rightarrow> bool" where
  "ibm_edge prog t d i =
     (if store (prog ! t ! i)
      then store (prog ! t ! d) \<or> mem (prog ! t ! i) = mem (prog ! t ! d)
      else True)"

definition tso_edge :: "program \<Rightarrow> nat \<Rightarrow> nat \<Rightarrow> nat \<Rightarrow> bool" where
  "tso_edge prog t d i = (if store (prog ! t ! i) then store (prog ! t ! d) else True)"

definition keys :: "memory \<Rightarrow> string set" where
  "keys m = fst ` set m"

definition po_consistent ::
  "(program \<Rightarrow> nat \<Rightarrow> nat \<Rightarrow> nat \<Rightarrow> bool) \<Rightarrow> program \<Rightarrow> state \<Rightarrow> bool" where
  "po_consistent edge prog st =
     list_all (\<lambda>(t, i).
        list_all (\<lambda>d. po st t d i = (\<not> executed st t i \<and> i < d \<and> edge prog t d i))
          [0..<length (prog ! t)]) (positions prog)"

definition loads_zero :: "program \<Rightarrow> state \<Rightarrow> bool" where
  "loads_zero prog st =
     list_all (\<lambda>(t, i). \<not> executed st t i \<longrightarrow> loadvalues st t i = 0) (positions prog)"

definition registered :: "program \<Rightarrow> memory \<Rightarrow> bool" where
  "registered prog m = list_all (\<lambda>(t, i). mem (prog ! t ! i) \<in> keys m) (positions prog)"

definition ibm_inv :: "program \<Rightarrow> state \<Rightarrow> bool" where
  "ibm_inv prog st \<longleftrightarrow>
     po_consistent ibm_edge prog st \<and> loads_zero prog st \<and> registered prog (memory st)"

definition tso_inv :: "program \<Rightarrow> state \<Rightarrow> bool" where
  "tso_inv prog st \<longleftrightarrow>
     po_consistent tso_edge prog st \<and> loads_zero prog st \<and> registered prog (memory st)"

definition unexecuted :: "program \<Rightarrow> marks \<Rightarrow> nat" where
  "unexecuted prog ex = length (filter (\<lambda>(t, i). \<not> ex t i) (positions prog))"

definition mark :: "marks \<Rightarrow> nat \<Rightarrow> nat \<Rightarrow> bool \<Rightarrow> marks" where
  "mark ex t i b = ex(t := (ex t)(i := b))"

definition put_load :: "loads \<Rightarrow> nat \<Rightarrow> nat \<Rightarrow> int \<Rightarrow> loads" where
  "put_load lv t i x = lv(t := (lv t)(i := x))"

definition outcome :: "program \<Rightarrow> state \<Rightarrow> string" where
  "outcome prog st = print_mem (memory st) @ print_loads prog (loadvalues st)"

definition ibm_continue ::
  "nat \<Rightarrow> program \<Rightarrow> state \<Rightarrow> string set \<Rightarrow> error + (state \<times> string set)" where
  "ibm_continue fuel prog st sols =
     (if all_executed prog (executed st)
      then Inr (st, add_possible_execution_ibm prog st sols)
      else (case fuel of
              0 \<Rightarrow> Inl Out_of_fuel
            | Suc n \<Rightarrow> gpe_ibm n prog (positions prog) st sols))"

inductive ibm_sol :: "program \<Rightarrow> state \<Rightarrow> string \<Rightarrow> bool" for prog :: program where
  ibm_last:
    "t < length prog \<Longrightarrow> i < length (prog ! t) \<Longrightarrow> \<not> executed st t i \<Longrightarrow>
     \<not> has_po_dependencies prog (po st) t i \<Longrightarrow>
     ibm_execute prog t i st = Inr (old, st1) \<Longrightarrow> all_executed prog (executed st1) \<Longrightarrow>
     ibm_sol prog st (outcome prog st1)"
| ibm_more:
    "t < length prog \<Longrightarrow> i < length (prog ! t) \<Longrightarrow> \<not> executed st t i \<Longrightarrow>
     \<not> has_po_dependencies prog (po st) t i \<Longrightarrow>
     ibm_execute prog t i st = Inr (old, st1) \<Longrightarrow> \<not> all_executed prog (executed st1) \<Longrightarrow>
     ibm_sol prog st1 out \<Longrightarrow> ibm_sol prog st out"

definition ibm_branch :: "program \<Rightarrow> state \<Rightarrow> nat \<Rightarrow> nat \<Rightarrow> string \<Rightarrow> bool" where
  "ibm_branch prog st t i out \<longleftrightarrow>
     \<not> executed st t i \<and> \<not> has_po_dependencies prog (po st) t i \<and>
     (\<exists>old st1. ibm_execute prog t i st = Inr (old, st1) \<and>
        (if all_executed prog (executed st1) then out = outcome prog st1
         else ibm_sol prog st1 out))"

definition pending :: "program \<Rightarrow> marks \<Rightarrow> nat \<Rightarrow> nat \<Rightarrow> bool" where
  "pending prog ex t i \<longleftrightarrow>
     is_prevstore_from (prog ! t) (mem (prog ! t ! i)) i \<and>
     \<not> is_prevstore_executed_from (prog ! t) (ex t) (mem (prog ! t ! i)) i"

definition tso_load_value :: "program \<Rightarrow> state \<Rightarrow> nat \<Rightarrow> nat \<Rightarrow> error + int" where
  "tso_load_value prog st t i =
     (if pending prog (executed st) t i
      then get_prevstore_from (prog ! t) (mem (prog ! t ! i)) i
      else get_memvar (memory st) (mem (prog ! t ! i)))"

definition tso_continue ::
  "nat \<Rightarrow> program \<Rightarrow> state \<Rightarrow> string set \<Rightarrow> error + (state \<times> string set)" where
  "tso_continue fuel prog st sols =
     (if all_executed prog (executed st)
      then Inr (st, add_possible_execution_tso prog st sols)
      else (case fuel of
              0 \<Rightarrow> Inl Out_of_fuel
            | Suc n \<Rightarrow> gpe_tso n prog (positions prog) st sols))"

inductive tso_sol :: "program \<Rightarrow> state \<Rightarrow> string \<Rightarrow> bool" for prog :: program where
  tso_last:
    "t < length prog \<Longrightarrow> i < length (prog ! t) \<Longrightarrow> \<not> executed st t i \<Longrightarrow>
     \<not> has_po_dependencies prog (po st) t i \<Longrightarrow>
     tso_execute prog t i st = Inr (old, st1) \<Longrightarrow> all_executed prog (executed st1) \<Longrightarrow>
     tso_sol prog st (outcome prog st1)"
| tso_more:
    "t < length prog \<Longrightarrow> i < length (prog ! t) \<Longrightarrow> \<not> executed st t i \<Longrightarrow>
     \<not> has_po_dependencies prog (po st) t i \<Longrightarrow>
     tso_execute prog t i st = Inr (old, st1) \<Longrightarrow> \<not> all_executed prog (executed st1) \<Longrightarrow>
     tso_sol prog st1 out \<Longrightarrow> tso_sol prog st out"

definition tso_branch :: "program \<Rightarrow> state \<Rightarrow> nat \<Rightarrow> nat \<Rightarrow> string \<Rightarrow> bool" where
  "tso_branch prog st t i out \<longleftrightarrow>
     \<not> executed st t i \<and> \<not> has_po_dependencies prog (po st) t i \<and>
     (\<exists>old st1. tso_execute prog t i st = Inr (old, st1) \<and>
        (if all_executed prog (executed st1) then out = outcome prog st1
         else tso_sol prog st1 out))"

definition core_eq :: "state \<Rightarrow> state \<Rightarrow> bool" where
  "core_eq st st' \<longleftrightarrow>
     executed st = executed st' \<and> memory st = memory st' \<and> loadvalues st = loadvalues st'"

definition zero_loads :: "program \<Rightarrow> loads \<Rightarrow> bool" where
  "zero_loads prog lv = list_all (\<lambda>(t, i). lv t i = 0) (positions prog)"

definition start_ibm :: "program \<Rightarrow> state \<Rightarrow> state" where
  "start_ibm prog st0 = st0\<lparr>executed := reset_executed prog (executed st0),
                          po := build_po_graph_ibm prog (po st0)\<rparr>"

definition start_tso :: "program \<Rightarrow> state \<Rightarrow> state" where
  "start_tso prog st0 = st0\<lparr>executed := reset_executed prog (executed st0),
                          po := build_po_graph_tso prog (po st0)\<rparr>"

definition frame_ok :: "program \<Rightarrow> nat \<Rightarrow> state \<Rightarrow> error + (state \<times> string set) \<Rightarrow> bool" where
  "frame_ok prog b st r =
     (case r of
        Inl e \<Rightarrow> (e = Unknown_memvar \<and> \<not> registered prog (memory st)) \<or>
                 (e = Out_of_fuel \<and> b < unexecuted prog (executed st))
      | Inr (st', S') \<Rightarrow>
          executed st' = executed st \<and> keys (memory st') = keys (memory st) \<and>
          (loads_zero prog st \<longrightarrow> loadvalues st' = loadvalues st))"

definition store_load :: program where
  "store_load = [[\<lparr>store = True, mem = ''x'', val = 1\<rparr>, \<lparr>store = False, mem = ''x'', val = 0\<rparr>]]"

definition two_stores_load :: program where
  "two_stores_load =
     [[\<lparr>store = True, mem = ''x'', val = 1\<rparr>, \<lparr>store = True, mem = ''x'', val = 2\<rparr>,
       \<lparr>store = False, mem = ''x'', val = 0\<rparr>]]"

definition dekker :: program where
  "dekker =
     [[\<lparr>store = True, mem = ''x'', val = 1\<rparr>, \<lparr>store = False, mem = ''y'', val = 0\<rparr>],
      [\<lparr>store = True, mem = ''y'', val = 1\<rparr>, \<lparr>store = False, mem = ''x'', val = 0\<rparr>]]"

definition dekker_outcomes :: "string set" where
  "dekker_outcomes =
     {''[x]==1; [y]==1; y==0; x==0; '', ''[x]==1; [y]==1; y==0; x==1; '',
      ''[x]==1; [y]==1; y==1; x==0; '', ''[x]==1; [y]==1; y==1; x==1; ''}"

definition store_load_start :: state where
  "store_load_start = start_tso store_load (loaded_state store_load)"

definition store_load_forwarded :: state where
  "store_load_forwarded =
     store_load_start\<lparr>executed := mark (executed store_load_start) 0 1 True,
                      loadvalues := put_load (loadvalues store_load_start) 0 1 1,
                      po := remove_po store_load 0 1 (po store_load_start)\<rparr>"

definition two_stores_start :: state where
  "two_stores_start = start_tso two_stores_load (loaded_state two_stores_load)"

definition after_first_store :: state where
  "after_first_store =
     two_stores_start\<lparr>executed := mark (executed two_stores_start) 0 0 True,
                      memory := [(''x'', 1)],
                      po := remove_po two_stores_load 0 0 (po two_stores_start)\<rparr>"

definition after_load :: state where
  "after_load =
     after_first_store\<lparr>executed := mark (executed after_first_store) 0 2 True,
                       loadvalues := put_load (loadvalues after_first_store) 0 2 1,
                       po := remove_po two_stores_load 0 2 (po after_first_store)\<rparr>"

section \<open>Properties\<close>

subsection \<open>The dependency matrix in closed form\<close>

lemma po_set_apply:
  "po_set p t d i b t' d' i' = (if t' = t \<and> d' = d \<and> i' = i then b else p t' d' i')"
  by (simp add: po_set_def)

lemma po_set_twice: "po_set (po_set p t d i b) t d i c = po_set p t d i c"
  by (simp add: po_set_def)

lemma foldl_po_set:
  "foldl (\<lambda>q d. po_set q t d i (f d)) p [a..<b] t' d' i' =
     (if t' = t \<and> i' = i \<and> a \<le> d' \<and> d' < b then f d' else p t' d' i')"
proof (induction b)
  case 0
  then show ?case by simp
next
  case (Suc b)
  let ?F = "\<lambda>q d. po_set q t d i (f d)"
  show ?case
  proof (cases "a \<le> b")
    case True
    then have "foldl ?F p [a..<Suc b] = po_set (foldl ?F p [a..<b]) t b i (f b)"
      by simp
    then have "foldl ?F p [a..<Suc b] t' d' i' =
        (if t' = t \<and> d' = b \<and> i' = i then f b else foldl ?F p [a..<b] t' d' i')"
      by (simp only: po_set_apply)
    with Suc True show ?thesis by (auto simp: less_Suc_eq)
  next
    case False
    then show ?thesis by auto
  qed
qed

lemma add_po_ibm_body:
  "(\<lambda>q d. let q1 = po_set q t d i False in
         if store (prog ! t ! i) then
           (if store (prog ! t ! d) then po_set q1 t d i True
            else if mem (prog ! t ! i) = mem (prog ! t ! d) then po_set q1 t d i True
            else q1)
         else po_set q1 t d i True)
   = (\<lambda>q d. po_set q t d i (ibm_edge prog t d i))"
  by (intro ext) (simp add: Let_def po_set_twice ibm_edge_def)

lemma add_po_tso_body:
  "(\<lambda>q d. let q1 = po_set q t d i False in
         if store (prog ! t ! i) then
           (if store (prog ! t ! d) then po_set q1 t d i True else q1)
         else po_set q1 t d i True)
   = (\<lambda>q d. po_set q t d i (tso_edge prog t d i))"
  by (intro ext) (simp add: Let_def po_set_twice tso_edge_def)

lemma add_po_ibm_apply:
  "add_po_ibm prog t i p t' d' i' =
     (if t' = t \<and> i' = i \<and> (d' \<le> i \<or> d' < length (prog ! t))
      then i < d' \<and> ibm_edge prog t d' i else p t' d' i')"
  unfolding add_po_ibm_def add_po_ibm_body
  by (simp only: foldl_po_set) auto

lemma add_po_tso_apply:
  "add_po_tso prog t i p t' d' i' =
     (if t' = t \<and> i' = i \<and> (d' \<le> i \<or> d' < length (prog ! t))
      then i < d' \<and> tso_edge prog t d' i else p t' d' i')"
  unfolding add_po_tso_def add_po_tso_body
  by (simp only: foldl_po_set) auto

lemma remove_po_apply:
  "remove_po prog t i p t' d' i' =
     (if t' = t \<and> i' = i \<and> i < d' \<and> d' < length (prog ! t) then False else p t' d' i')"
  unfolding remove_po_def by (simp only: foldl_po_set) auto

lemma in_positions:
  "(t, i) \<in> set (positions prog) \<longleftrightarrow> t < length prog \<and> i < length (prog ! t)"
  by (force simp: positions_def)

lemma build_po_ibm_fold:
  "foldl (\<lambda>q (t, i). add_po_ibm prog t i q) p ps t' d' i' =
     (if (t', i') \<in> set ps \<and> (d' \<le> i' \<or> d' < length (prog ! t'))
      then i' < d' \<and> ibm_edge prog t' d' i' else p t' d' i')"
  by (induction ps arbitrary: p) (auto simp: add_po_ibm_apply split: if_splits)

lemma build_po_tso_fold:
  "foldl (\<lambda>q (t, i). add_po_tso prog t i q) p ps t' d' i' =
     (if (t', i') \<in> set ps \<and> (d' \<le> i' \<or> d' < length (prog ! t'))
      then i' < d' \<and> tso_edge prog t' d' i' else p t' d' i')"
  by (induction ps arbitrary: p) (auto simp: add_po_tso_apply split: if_splits)

lemma reset_executed_fold:
  "foldl (\<lambda>e (t, i). e(t := (e t)(i := False))) ex ps t' i' =
     (if (t', i') \<in> set ps then False else ex t' i')"
  by (induction ps arbitrary: ex) (auto split: if_splits)

lemma reset_executed_apply:
  "reset_executed prog ex t i = (if (t, i) \<in> set (positions prog) then False else ex t i)"
  by (simp add: reset_executed_def reset_executed_fold)

lemma has_po_dependencies_iff:
  "has_po_dependencies prog p t i \<longleftrightarrow> (\<exists>d < length (prog ! t). p t i d)"
  by (auto simp: has_po_dependencies_def list_ex_iff)

lemma all_executed_iff:
  "all_executed prog ex \<longleftrightarrow> (\<forall>(t, i) \<in> set (positions prog). ex t i)"
  by (auto simp: all_executed_def list_all_iff)

subsection \<open>Memory variables and the previous-store scans\<close>

lemma keys_simps [simp]: "keys [] = {}" "keys ((m, v) # rest) = insert m (keys rest)"
  by (auto simp: keys_def)

lemma get_memvar_keys: "x \<in> keys m \<Longrightarrow> \<exists>v. get_memvar m x = Inr v"
  by (induction m x rule: get_memvar.induct) auto

lemma get_memvar_err: "get_memvar m x = Inl e \<Longrightarrow> e = Unknown_memvar \<and> x \<notin> keys m"
  by (induction m x rule: get_memvar.induct) (auto split: if_splits)

lemma update_memvar_err:
  "update_memvar m x v = Inl e \<Longrightarrow> e = Unknown_memvar \<and> x \<notin> keys m"
  by (induction m x v rule: update_memvar.induct)
     (auto split: if_splits sum.splits)

lemma update_memvar_keys: "x \<in> keys m \<Longrightarrow> \<exists>old m'. update_memvar m x v = Inr (old, m')"
  by (cases "update_memvar m x v") (auto dest: update_memvar_err)

lemma update_memvar_ok:
  "update_memvar m x v = Inr (old, m') \<Longrightarrow>
     get_memvar m x = Inr old \<and> keys m' = keys m \<and> x \<in> keys m \<and>
     update_memvar m' x old = Inr (v, m) \<and>
     (\<forall>y. get_memvar m' y = (if y = x then Inr v else get_memvar m y))"
  by (induction m x v arbitrary: old m' rule: update_memvar.induct)
     (auto split: if_splits sum.splits)

lemma insert_memvar_keys: "keys (insert_memvar m x) = insert x (keys m)"
  by (induction m x rule: insert_memvar.induct) auto

lemma loaded_memory_keys_aux:
  "keys (foldl (\<lambda>m ins. insert_memvar m (mem ins)) m0 xs) = keys m0 \<union> mem ` set xs"
  by (induction xs arbitrary: m0) (auto simp: insert_memvar_keys)

lemma loaded_memory_keys: "keys (loaded_memory prog) = mem ` set (concat prog)"
  unfolding loaded_memory_def loaded_memory_keys_aux by simp

lemma is_prevstore_from_iff:
  "is_prevstore_from th m i \<longleftrightarrow> (\<exists>k<i. store (th ! k) \<and> mem (th ! k) = m)"
  by (induction i) (auto simp: less_Suc_eq)

lemma is_prevstore_executed_from_iff:
  "is_prevstore_executed_from th ex m i \<longleftrightarrow> (\<exists>k<i. store (th ! k) \<and> mem (th ! k) = m \<and> ex k)"
  by (induction i) (auto simp: less_Suc_eq)

lemma get_prevstore_from_ok:
  "is_prevstore_from th m i \<Longrightarrow> \<exists>x. get_prevstore_from th m i = Inr x"
  by (induction i) auto

lemma prevstore_pending_load:
  "\<not> store (prog ! t ! i) \<Longrightarrow>
   prevstore_pending prog ex t i =
     Inr (is_prevstore_from (prog ! t) (mem (prog ! t ! i)) i \<and>
          \<not> is_prevstore_executed_from (prog ! t) (ex t) (mem (prog ! t ! i)) i)"
  by (simp add: prevstore_pending_def is_prevstore_def is_prevstore_executed_def)

subsection \<open>The invariant and the count of unexecuted instructions\<close>

lemma list_all_positions:
  "list_all P (positions prog) \<longleftrightarrow>
     (\<forall>t i. t < length prog \<longrightarrow> i < length (prog ! t) \<longrightarrow> P (t, i))"
  unfolding list_all_iff by (metis in_positions surj_pair)

lemma po_consistent_iff:
  "po_consistent edge prog st \<longleftrightarrow>
     (\<forall>t i d. t < length prog \<longrightarrow> i < length (prog ! t) \<longrightarrow> d < length (prog ! t) \<longrightarrow>
        po st t d i = (\<not> executed st t i \<and> i < d \<and> edge prog t d i))"
proof -
  have "po_consistent edge prog st \<longleftrightarrow>
     (\<forall>t i. t < length prog \<longrightarrow> i < length (prog ! t) \<longrightarrow>
        (\<forall>d \<in> set [0..<length (prog ! t)].
           po st t d i = (\<not> executed st t i \<and> i < d \<and> edge prog t d i)))"
    unfolding po_consistent_def list_all_positions by (simp only: prod.case list_all_iff)
  also have "\<dots> \<longleftrightarrow>
     (\<forall>t i d. t < length prog \<longrightarrow> i < length (prog ! t) \<longrightarrow> d < length (prog ! t) \<longrightarrow>
        po st t d i = (\<not> executed st t i \<and> i < d \<and> edge prog t d i))"
    by (simp only: set_upt atLeastLessThan_iff Ball_def) (meson le0)
  finally show ?thesis .
qed

lemma loads_zero_iff:
  "loads_zero prog st \<longleftrightarrow>
     (\<forall>t i. t < length prog \<longrightarrow> i < length (prog ! t) \<longrightarrow> \<not> executed st t i \<longrightarrow>
        loadvalues st t i = 0)"
  unfolding loads_zero_def list_all_positions by simp

lemma registered_iff:
  "registered prog m \<longleftrightarrow>
     (\<forall>t i. t < length prog \<longrightarrow> i < length (prog ! t) \<longrightarrow> mem (prog ! t ! i) \<in> keys m)"
  unfolding registered_def list_all_positions by simp

lemma all_executed_unexecuted: "all_executed prog ex \<longleftrightarrow> unexecuted prog ex = 0"
  by (auto simp: all_executed_def unexecuted_def list_all_iff filter_empty_conv)

lemma unexecuted_mark:
  assumes "(t, i) \<in> set (positions prog)" and "\<not> ex t i"
  shows "unexecuted prog (ex(t := (ex t)(i := True))) < unexecuted prog ex"
proof -
  define P where "P = (\<lambda>(t', i'). \<not> ex t' i')"
  define Q where "Q = (\<lambda>(t', i'). \<not> (ex(t := (ex t)(i := True))) t' i')"
  have QP: "\<And>x. Q x \<Longrightarrow> P x"
    by (auto simp: P_def Q_def split: if_splits)
  have "filter Q (filter P (positions prog)) = filter (\<lambda>x. P x \<and> Q x) (positions prog)"
    by simp
  also have "\<dots> = filter Q (positions prog)"
    by (rule filter_cong) (use QP in auto)
  finally have eq: "filter Q (positions prog) = filter Q (filter P (positions prog))"
    by simp
  have "(t, i) \<in> set (filter P (positions prog))"
    using assms by (simp add: P_def)
  moreover have "\<not> Q (t, i)"
    by (simp add: Q_def)
  ultimately have "length (filter Q (filter P (positions prog))) < length (filter P (positions prog))"
    by (rule length_filter_less)
  then show ?thesis
    unfolding unexecuted_def P_def [symmetric] Q_def [symmetric] eq [symmetric] .
qed

lemma ibm_execute_store:
  "store (prog ! t ! i) \<Longrightarrow>
   ibm_execute prog t i st =
     (case update_memvar (memory st) (mem (prog ! t ! i)) (val (prog ! t ! i)) of
        Inl e \<Rightarrow> Inl e
      | Inr (old, m) \<Rightarrow>
          Inr (old, st\<lparr>executed := mark (executed st) t i True, memory := m,
                         po := remove_po prog t i (po st)\<rparr>))"
  by (simp add: ibm_execute_def Let_def mark_def split: sum.splits prod.splits)

lemma ibm_execute_load:
  "\<not> store (prog ! t ! i) \<Longrightarrow>
   ibm_execute prog t i st =
     (case get_memvar (memory st) (mem (prog ! t ! i)) of
        Inl e \<Rightarrow> Inl e
      | Inr x \<Rightarrow>
          Inr (loadvalues st t i,
               st\<lparr>executed := mark (executed st) t i True,
                  loadvalues := put_load (loadvalues st) t i x,
                  po := remove_po prog t i (po st)\<rparr>))"
  by (simp add: ibm_execute_def Let_def mark_def put_load_def update_load_def split: sum.splits)

lemma ibm_reverse_store:
  "store (prog ! t ! i) \<Longrightarrow>
   ibm_reverse prog t i old st =
     (case update_memvar (memory st) (mem (prog ! t ! i)) old of
        Inl e \<Rightarrow> Inl e
      | Inr (x, m) \<Rightarrow>
          Inr (st\<lparr>po := add_po_ibm prog t i (po st), memory := m,
                    executed := mark (executed st) t i False\<rparr>))"
  by (simp add: ibm_reverse_def Let_def mark_def split: sum.splits prod.splits)

lemma ibm_reverse_load:
  "\<not> store (prog ! t ! i) \<Longrightarrow>
   ibm_reverse prog t i old st =
     Inr (st\<lparr>po := add_po_ibm prog t i (po st),
               loadvalues := put_load (loadvalues st) t i 0,
               executed := mark (executed st) t i False\<rparr>)"
  by (simp add: ibm_reverse_def Let_def mark_def put_load_def update_load_def)

subsection \<open>One step of the store-atomic search\<close>

lemma gpe_ibm_skip:
  "executed st t i \<or> has_po_dependencies prog (po st) t i \<Longrightarrow>
   gpe_ibm fuel prog ((t, i) # rest) st sols = gpe_ibm fuel prog rest st sols"
  by auto

lemma gpe_ibm_exec:
  "\<not> executed st t i \<Longrightarrow> \<not> has_po_dependencies prog (po st) t i \<Longrightarrow>
   gpe_ibm fuel prog ((t, i) # rest) st sols =
     (case ibm_execute prog t i st of
        Inl e \<Rightarrow> Inl e
      | Inr (old_val, st1) \<Rightarrow>
          (case ibm_continue fuel prog st1 sols of
             Inl e \<Rightarrow> Inl e
           | Inr (st2, sols2) \<Rightarrow>
               (case ibm_reverse prog t i old_val st2 of
                  Inl e \<Rightarrow> Inl e
                | Inr st3 \<Rightarrow> gpe_ibm fuel prog rest st3 sols2)))"
  by (auto simp: ibm_continue_def split: sum.splits)

lemma mark_apply: "mark ex t i b t' i' = (if t' = t \<and> i' = i then b else ex t' i')"
  by (simp add: mark_def)

lemma put_load_apply: "put_load lv t i x t' i' = (if t' = t \<and> i' = i then x else lv t' i')"
  by (simp add: put_load_def)

lemma mark_restore: "\<not> ex t i \<Longrightarrow> mark (mark ex t i True) t i False = ex"
  by (intro ext) (simp add: mark_apply)

lemma put_load_restore: "lv t i = 0 \<Longrightarrow> put_load (put_load lv t i x) t i 0 = lv"
  by (intro ext) (auto simp add: put_load_apply)

lemma put_load_twice: "put_load (put_load lv t i x) t i y = put_load lv t i y"
  by (intro ext) (simp add: put_load_apply)

lemma po_restore_ibm:
  assumes "po_consistent ibm_edge prog st" "t < length prog" "i < length (prog ! t)"
    "\<not> executed st t i"
  shows "add_po_ibm prog t i (remove_po prog t i (po st)) = po st"
proof (intro ext)
  fix t' d' i'
  show "add_po_ibm prog t i (remove_po prog t i (po st)) t' d' i' = po st t' d' i'"
    using assms unfolding po_consistent_iff
    by (simp add: add_po_ibm_apply remove_po_apply) (meson leD le_less_trans)
qed

lemma po_consistent_step:
  assumes "po_consistent edge prog st" "t < length prog" "i < length (prog ! t)"
  shows "po_consistent edge prog
           (st\<lparr>executed := mark (executed st) t i True, po := remove_po prog t i (po st)\<rparr>)"
  using assms unfolding po_consistent_iff
  by (auto simp: remove_po_apply mark_apply)

lemma unexecuted_mark': 
  "t < length prog \<Longrightarrow> i < length (prog ! t) \<Longrightarrow> \<not> ex t i \<Longrightarrow>
   unexecuted prog (mark ex t i True) < unexecuted prog ex"
  unfolding mark_def by (rule unexecuted_mark) (simp_all add: in_positions)

lemma ibm_step:
  assumes inv: "ibm_inv prog st" and t: "t < length prog" and i: "i < length (prog ! t)"
    and ne: "\<not> executed st t i"
  obtains old st1 where "ibm_execute prog t i st = Inr (old, st1)"
    and "ibm_inv prog st1" and "ibm_reverse prog t i old st1 = Inr st"
    and "executed st1 = mark (executed st) t i True"
proof (cases "store (prog ! t ! i)")
  case True
  from inv t i have "mem (prog ! t ! i) \<in> keys (memory st)"
    by (simp add: ibm_inv_def registered_iff)
  then obtain old m where
    u: "update_memvar (memory st) (mem (prog ! t ! i)) (val (prog ! t ! i)) = Inr (old, m)"
    using update_memvar_keys by blast
  define st1 where "st1 = st\<lparr>executed := mark (executed st) t i True, memory := m,
                         po := remove_po prog t i (po st)\<rparr>"
  have e: "ibm_execute prog t i st = Inr (old, st1)"
    using True u by (simp add: ibm_execute_store st1_def)
  have pc: "po_consistent ibm_edge prog st1"
    using po_consistent_step [of ibm_edge prog st t i] inv t i
    by (simp add: st1_def ibm_inv_def po_consistent_iff)
  have lz: "loads_zero prog st1"
    using inv by (simp add: st1_def ibm_inv_def loads_zero_iff mark_apply)
  have rg: "registered prog (memory st1)"
    using inv update_memvar_ok [OF u] by (simp add: st1_def ibm_inv_def registered_iff)
  have undo: "update_memvar m (mem (prog ! t ! i)) old = Inr (val (prog ! t ! i), memory st)"
    using update_memvar_ok [OF u] by simp
  have r: "ibm_reverse prog t i old st1 = Inr st"
    using True undo inv t i ne
    by (simp add: ibm_reverse_store st1_def mark_restore po_restore_ibm ibm_inv_def)
  show ?thesis
    using that [OF e _ r] pc lz rg by (simp add: ibm_inv_def st1_def)
next
  case False
  from inv t i have "mem (prog ! t ! i) \<in> keys (memory st)"
    by (simp add: ibm_inv_def registered_iff)
  then obtain x where g: "get_memvar (memory st) (mem (prog ! t ! i)) = Inr x"
    using get_memvar_keys by blast
  define st1 where "st1 = st\<lparr>executed := mark (executed st) t i True,
                  loadvalues := put_load (loadvalues st) t i x,
                  po := remove_po prog t i (po st)\<rparr>"
  have z: "loadvalues st t i = 0"
    using inv t i ne by (simp add: ibm_inv_def loads_zero_iff)
  have e: "ibm_execute prog t i st = Inr (loadvalues st t i, st1)"
    using False g by (simp add: ibm_execute_load st1_def)
  have pc: "po_consistent ibm_edge prog st1"
    using po_consistent_step [of ibm_edge prog st t i] inv t i
    by (simp add: st1_def ibm_inv_def po_consistent_iff)
  have lz: "loads_zero prog st1"
    using inv by (simp add: st1_def ibm_inv_def loads_zero_iff mark_apply put_load_apply)
  have rg: "registered prog (memory st1)"
    using inv by (simp add: st1_def ibm_inv_def)
  have r: "ibm_reverse prog t i (loadvalues st t i) st1 = Inr st"
    using False inv t i ne z
    by (simp add: ibm_reverse_load st1_def mark_restore po_restore_ibm ibm_inv_def
        put_load_restore)
  show ?thesis
    using that [OF e _ r] pc lz rg by (simp add: ibm_inv_def st1_def)
qed

subsection \<open>The outcomes of the store-atomic search\<close>

declare gpe_ibm.simps(2) [simp del]

lemma ibm_sol_iff:
  "ibm_sol prog st out \<longleftrightarrow>
     (\<exists>(t, i) \<in> set (positions prog). ibm_branch prog st t i out)"
proof
  assume "ibm_sol prog st out"
  then show "\<exists>(t, i) \<in> set (positions prog). ibm_branch prog st t i out"
    by (cases rule: ibm_sol.cases) (force simp: ibm_branch_def in_positions)+
next
  assume "\<exists>(t, i) \<in> set (positions prog). ibm_branch prog st t i out"
  then obtain t i where ti: "t < length prog" "i < length (prog ! t)"
    and b: "ibm_branch prog st t i out"
    by (auto simp: in_positions)
  from b obtain old st1 where e: "ibm_execute prog t i st = Inr (old, st1)"
    and ne: "\<not> executed st t i" "\<not> has_po_dependencies prog (po st) t i"
    and c: "if all_executed prog (executed st1) then out = outcome prog st1
            else ibm_sol prog st1 out"
    by (auto simp: ibm_branch_def)
  show "ibm_sol prog st out"
  proof (cases "all_executed prog (executed st1)")
    case True
    with c ibm_last [OF ti ne e] show ?thesis by simp
  next
    case False
    with c ibm_more [OF ti ne e] show ?thesis by simp
  qed
qed

lemma gpe_ibm_char:
  assumes "ibm_inv prog st" and "unexecuted prog (executed st) \<le> Suc fuel"
    and "set ps \<subseteq> set (positions prog)"
  shows "gpe_ibm fuel prog ps st S =
           Inr (st, S \<union> {out. \<exists>(t, i) \<in> set ps. ibm_branch prog st t i out})"
  using assms
proof (induction fuel arbitrary: st S ps rule: less_induct)
  case (less fuel)
  note inv = \<open>ibm_inv prog st\<close> and bound = \<open>unexecuted prog (executed st) \<le> Suc fuel\<close>
  have cont: "ibm_continue fuel prog st1 S' =
      Inr (st1, S' \<union> {out. if all_executed prog (executed st1) then out = outcome prog st1
                             else ibm_sol prog st1 out})"
    if ti: "t < length prog" "i < length (prog ! t)" and ne: "\<not> executed st t i"
      and inv1: "ibm_inv prog st1" and ex1: "executed st1 = mark (executed st) t i True"
    for t i st1 S'
  proof (cases "all_executed prog (executed st1)")
    case True
    then show ?thesis
      by (auto simp: ibm_continue_def add_possible_execution_ibm_def outcome_def)
  next
    case False
    have lt: "unexecuted prog (executed st1) < unexecuted prog (executed st)"
      unfolding ex1 using ti ne by (rule unexecuted_mark')
    from False have "unexecuted prog (executed st1) \<noteq> 0"
      by (simp add: all_executed_unexecuted)
    with lt bound obtain n where n: "fuel = Suc n" and b1: "unexecuted prog (executed st1) \<le> Suc n"
      by (cases fuel) auto
    have "gpe_ibm n prog (positions prog) st1 S' =
        Inr (st1, S' \<union> {out. \<exists>(t, i) \<in> set (positions prog). ibm_branch prog st1 t i out})"
      by (rule less.IH) (use n inv1 b1 in auto)
    then show ?thesis
      using False n by (simp add: ibm_continue_def ibm_sol_iff)
  qed
  from \<open>set ps \<subseteq> set (positions prog)\<close> show ?case
  proof (induction ps arbitrary: S)
    case Nil
    then show ?case by simp
  next
    case (Cons p ps)
    obtain t i where p: "p = (t, i)" by (cases p)
    from Cons.prems p have ti: "t < length prog" "i < length (prog ! t)"
      and sub: "set ps \<subseteq> set (positions prog)"
      by (auto simp: in_positions)
    show ?case
    proof (cases "\<not> executed st t i \<and> \<not> has_po_dependencies prog (po st) t i")
      case False
      then have "gpe_ibm fuel prog (p # ps) st S = gpe_ibm fuel prog ps st S"
        unfolding p by (intro gpe_ibm_skip) auto
      moreover from False have "\<And>out. \<not> ibm_branch prog st t i out"
        by (auto simp: ibm_branch_def)
      ultimately show ?thesis
        using Cons.IH [OF sub, of S] by (simp add: p)
    next
      case True
      then have ne: "\<not> executed st t i" and nd: "\<not> has_po_dependencies prog (po st) t i"
        by auto
      from ibm_step [OF inv ti ne] obtain old st1 where
        e: "ibm_execute prog t i st = Inr (old, st1)" and inv1: "ibm_inv prog st1"
        and r: "ibm_reverse prog t i old st1 = Inr st"
        and ex1: "executed st1 = mark (executed st) t i True"
        by blast
      let ?B = "{out. if all_executed prog (executed st1) then out = outcome prog st1
                      else ibm_sol prog st1 out}"
      have B: "?B = {out. ibm_branch prog st t i out}"
        using ne nd e by (auto simp: ibm_branch_def)
      have "gpe_ibm fuel prog (p # ps) st S = gpe_ibm fuel prog ps st (S \<union> ?B)"
        unfolding p using cont [OF ti ne inv1 ex1, of S] e r
        by (subst gpe_ibm_exec [OF ne nd]) simp
      also have "\<dots> = Inr (st, (S \<union> ?B) \<union> {out. \<exists>(t, i) \<in> set ps. ibm_branch prog st t i out})"
        by (rule Cons.IH [OF sub])
      also have "(S \<union> ?B) \<union> {out. \<exists>(t, i) \<in> set ps. ibm_branch prog st t i out} =
          S \<union> {out. \<exists>(t, i) \<in> set (p # ps). ibm_branch prog st t i out}"
        unfolding B p by auto
      finally show ?thesis .
    qed
  qed
qed

subsection \<open>One step of the relaxed search\<close>

declare gpe_tso.simps(2) [simp del]

lemma pending_mark: "pending prog (mark ex t i b) t i = pending prog ex t i"
  by (auto simp: pending_def is_prevstore_executed_from_iff mark_apply)

lemma prevstore_pending_eq:
  "\<not> store (prog ! t ! i) \<Longrightarrow> prevstore_pending prog ex t i = Inr (pending prog ex t i)"
  by (simp add: prevstore_pending_load pending_def)

lemma get_prevstore_load:
  "\<not> store (prog ! t ! i) \<Longrightarrow>
   get_prevstore prog t i = get_prevstore_from (prog ! t) (mem (prog ! t ! i)) i"
  by (simp add: get_prevstore_def)

lemma gpe_tso_skip:
  "executed st t i \<or> has_po_dependencies prog (po st) t i \<Longrightarrow>
   gpe_tso fuel prog ((t, i) # rest) st sols = gpe_tso fuel prog rest st sols"
  by (auto simp: gpe_tso.simps(2))

lemma gpe_tso_exec:
  "\<not> executed st t i \<Longrightarrow> \<not> has_po_dependencies prog (po st) t i \<Longrightarrow>
   gpe_tso fuel prog ((t, i) # rest) st sols =
     (case tso_execute prog t i st of
        Inl e \<Rightarrow> Inl e
      | Inr (old_val, st1) \<Rightarrow>
          (case tso_continue fuel prog st1 sols of
             Inl e \<Rightarrow> Inl e
           | Inr (st2, sols2) \<Rightarrow>
               (case
                  (case tso_again prog t i st2 of
                     Inl e \<Rightarrow> Inl e
                   | Inr None \<Rightarrow> Inr (st2, sols2)
                   | Inr (Some st3) \<Rightarrow> tso_continue fuel prog st3 sols2)
                of Inl e \<Rightarrow> Inl e
                 | Inr (st4, sols4) \<Rightarrow>
                     (case tso_reverse prog t i old_val st4 of
                        Inl e \<Rightarrow> Inl e
                      | Inr st5 \<Rightarrow> gpe_tso fuel prog rest st5 sols4))))"
  by (auto simp: gpe_tso.simps(2) tso_continue_def split: sum.splits option.splits)

lemma tso_execute_store:
  "store (prog ! t ! i) \<Longrightarrow>
   tso_execute prog t i st =
     (case get_memvar (memory st) (mem (prog ! t ! i)) of
        Inl e \<Rightarrow> Inl e
      | Inr old \<Rightarrow>
         (case update_memvar (memory st) (mem (prog ! t ! i)) (val (prog ! t ! i)) of
            Inl e \<Rightarrow> Inl e
          | Inr (x, m) \<Rightarrow>
              Inr (old, st\<lparr>executed := mark (executed st) t i True, memory := m,
                             po := remove_po prog t i (po st)\<rparr>)))"
  by (simp add: tso_execute_def Let_def mark_def split: sum.splits prod.splits)

lemma tso_execute_load:
  "\<not> store (prog ! t ! i) \<Longrightarrow>
   tso_execute prog t i st =
     (case get_memvar (memory st) (mem (prog ! t ! i)) of
        Inl e \<Rightarrow> Inl e
      | Inr old \<Rightarrow>
         (case tso_load_value prog st t i of
            Inl e \<Rightarrow> Inl e
          | Inr x \<Rightarrow>
              Inr (old, st\<lparr>executed := mark (executed st) t i True,
                             loadvalues := put_load (loadvalues st) t i x,
                             po := remove_po prog t i (po st)\<rparr>)))"
  using pending_mark [of prog "executed st" t i True]
  by (simp add: tso_execute_def Let_def prevstore_pending_eq get_prevstore_load
      tso_load_value_def update_load_def put_load_def mark_def split: sum.splits)

lemma tso_again_store: "store (prog ! t ! i) \<Longrightarrow> tso_again prog t i st = Inr None"
  by (simp add: tso_again_def)

lemma tso_again_load:
  "\<not> store (prog ! t ! i) \<Longrightarrow>
   tso_again prog t i st =
     (if pending prog (executed st) t i then
        (case get_prevstore_from (prog ! t) (mem (prog ! t ! i)) i of
           Inl e \<Rightarrow> Inl e
         | Inr x \<Rightarrow> Inr (Some (st\<lparr>loadvalues := put_load (loadvalues st) t i x\<rparr>)))
      else Inr None)"
  by (simp add: tso_again_def prevstore_pending_eq get_prevstore_load update_load_def
      put_load_def split: sum.splits)

lemma tso_reverse_store:
  "store (prog ! t ! i) \<Longrightarrow>
   tso_reverse prog t i old st =
     (case update_memvar (memory st) (mem (prog ! t ! i)) old of
        Inl e \<Rightarrow> Inl e
      | Inr (x, m) \<Rightarrow>
          Inr (st\<lparr>po := add_po_tso prog t i (po st), memory := m,
                    executed := mark (executed st) t i False\<rparr>))"
  by (simp add: tso_reverse_def Let_def mark_def split: sum.splits prod.splits)

lemma tso_reverse_load:
  "\<not> store (prog ! t ! i) \<Longrightarrow>
   tso_reverse prog t i old st =
     Inr (st\<lparr>po := add_po_tso prog t i (po st),
               loadvalues := put_load (loadvalues st) t i 0,
               executed := mark (executed st) t i False\<rparr>)"
  by (simp add: tso_reverse_def Let_def mark_def put_load_def update_load_def)

lemma po_restore_tso:
  assumes "po_consistent tso_edge prog st" "t < length prog" "i < length (prog ! t)"
    "\<not> executed st t i"
  shows "add_po_tso prog t i (remove_po prog t i (po st)) = po st"
proof (intro ext)
  fix t' d' i'
  show "add_po_tso prog t i (remove_po prog t i (po st)) t' d' i' = po st t' d' i'"
    using assms unfolding po_consistent_iff
    by (simp add: add_po_tso_apply remove_po_apply) (meson leD le_less_trans)
qed

lemma tso_load_value_ok:
  assumes "mem (prog ! t ! i) \<in> keys (memory st)"
  shows "\<exists>x. tso_load_value prog st t i = Inr x"
  using assms get_memvar_keys get_prevstore_from_ok
  by (auto simp: tso_load_value_def pending_def)

lemma tso_step:
  assumes inv: "tso_inv prog st" and t: "t < length prog" and i: "i < length (prog ! t)"
    and ne: "\<not> executed st t i"
  obtains old st1 where "tso_execute prog t i st = Inr (old, st1)"
    and "tso_inv prog st1"
    and "tso_again prog t i st1 = Inr None \<or> tso_again prog t i st1 = Inr (Some st1)"
    and "tso_reverse prog t i old st1 = Inr st"
    and "executed st1 = mark (executed st) t i True"
proof (cases "store (prog ! t ! i)")
  case True
  from inv t i have "mem (prog ! t ! i) \<in> keys (memory st)"
    by (simp add: tso_inv_def registered_iff)
  then obtain old m where
    u: "update_memvar (memory st) (mem (prog ! t ! i)) (val (prog ! t ! i)) = Inr (old, m)"
    using update_memvar_keys by blast
  define st1 where "st1 = st\<lparr>executed := mark (executed st) t i True, memory := m,
                         po := remove_po prog t i (po st)\<rparr>"
  have g: "get_memvar (memory st) (mem (prog ! t ! i)) = Inr old"
    using update_memvar_ok [OF u] by simp
  have e: "tso_execute prog t i st = Inr (old, st1)"
    using True u g by (simp add: tso_execute_store st1_def)
  have pc: "po_consistent tso_edge prog st1"
    using po_consistent_step [of tso_edge prog st t i] inv t i
    by (simp add: st1_def tso_inv_def po_consistent_iff)
  have lz: "loads_zero prog st1"
    using inv by (simp add: st1_def tso_inv_def loads_zero_iff mark_apply)
  have rg: "registered prog (memory st1)"
    using inv update_memvar_ok [OF u] by (simp add: st1_def tso_inv_def registered_iff)
  have undo: "update_memvar m (mem (prog ! t ! i)) old = Inr (val (prog ! t ! i), memory st)"
    using update_memvar_ok [OF u] by simp
  have r: "tso_reverse prog t i old st1 = Inr st"
    using True undo inv t i ne
    by (simp add: tso_reverse_store st1_def mark_restore po_restore_tso tso_inv_def)
  have a: "tso_again prog t i st1 = Inr None"
    using True by (rule tso_again_store)
  show ?thesis
    using that [OF e _ _ r] a pc lz rg by (simp add: tso_inv_def st1_def)
next
  case False
  from inv t i have k: "mem (prog ! t ! i) \<in> keys (memory st)"
    by (simp add: tso_inv_def registered_iff)
  then obtain old where g: "get_memvar (memory st) (mem (prog ! t ! i)) = Inr old"
    using get_memvar_keys by blast
  from tso_load_value_ok [OF k] obtain x where v: "tso_load_value prog st t i = Inr x"
    by blast
  define st1 where "st1 = st\<lparr>executed := mark (executed st) t i True,
                  loadvalues := put_load (loadvalues st) t i x,
                  po := remove_po prog t i (po st)\<rparr>"
  have z: "loadvalues st t i = 0"
    using inv t i ne by (simp add: tso_inv_def loads_zero_iff)
  have e: "tso_execute prog t i st = Inr (old, st1)"
    using False g v by (simp add: tso_execute_load st1_def)
  have pc: "po_consistent tso_edge prog st1"
    using po_consistent_step [of tso_edge prog st t i] inv t i
    by (simp add: st1_def tso_inv_def po_consistent_iff)
  have lz: "loads_zero prog st1"
    using inv by (simp add: st1_def tso_inv_def loads_zero_iff mark_apply put_load_apply)
  have rg: "registered prog (memory st1)"
    using inv by (simp add: st1_def tso_inv_def)
  have r: "tso_reverse prog t i old st1 = Inr st"
    using False inv t i ne z
    by (simp add: tso_reverse_load st1_def mark_restore po_restore_tso tso_inv_def
        put_load_restore)
  have a: "tso_again prog t i st1 = Inr None \<or> tso_again prog t i st1 = Inr (Some st1)"
  proof (cases "pending prog (executed st) t i")
    case True
    with v have "get_prevstore_from (prog ! t) (mem (prog ! t ! i)) i = Inr x"
      by (simp add: tso_load_value_def)
    with True False have "tso_again prog t i st1 = Inr (Some st1)"
      by (simp add: tso_again_load st1_def pending_mark put_load_twice)
    then show ?thesis ..
  next
    case no: False
    with False have "tso_again prog t i st1 = Inr None"
      by (simp add: tso_again_load st1_def pending_mark)
    then show ?thesis ..
  qed
  show ?thesis
    using that [OF e _ a r] pc lz rg by (simp add: tso_inv_def st1_def)
qed

subsection \<open>The outcomes of the relaxed search\<close>

lemma tso_sol_iff:
  "tso_sol prog st out \<longleftrightarrow>
     (\<exists>(t, i) \<in> set (positions prog). tso_branch prog st t i out)"
proof
  assume "tso_sol prog st out"
  then show "\<exists>(t, i) \<in> set (positions prog). tso_branch prog st t i out"
    by (cases rule: tso_sol.cases) (force simp: tso_branch_def in_positions)+
next
  assume "\<exists>(t, i) \<in> set (positions prog). tso_branch prog st t i out"
  then obtain t i where ti: "t < length prog" "i < length (prog ! t)"
    and b: "tso_branch prog st t i out"
    by (auto simp: in_positions)
  from b obtain old st1 where e: "tso_execute prog t i st = Inr (old, st1)"
    and ne: "\<not> executed st t i" "\<not> has_po_dependencies prog (po st) t i"
    and c: "if all_executed prog (executed st1) then out = outcome prog st1
            else tso_sol prog st1 out"
    by (auto simp: tso_branch_def)
  show "tso_sol prog st out"
  proof (cases "all_executed prog (executed st1)")
    case True
    with c tso_last [OF ti ne e] show ?thesis by simp
  next
    case False
    with c tso_more [OF ti ne e] show ?thesis by simp
  qed
qed

lemma gpe_tso_char:
  assumes "tso_inv prog st" and "unexecuted prog (executed st) \<le> Suc fuel"
    and "set ps \<subseteq> set (positions prog)"
  shows "gpe_tso fuel prog ps st S =
           Inr (st, S \<union> {out. \<exists>(t, i) \<in> set ps. tso_branch prog st t i out})"
  using assms
proof (induction fuel arbitrary: st S ps rule: less_induct)
  case (less fuel)
  note inv = \<open>tso_inv prog st\<close> and bound = \<open>unexecuted prog (executed st) \<le> Suc fuel\<close>
  have cont: "tso_continue fuel prog st1 S' =
      Inr (st1, S' \<union> {out. if all_executed prog (executed st1) then out = outcome prog st1
                             else tso_sol prog st1 out})"
    if ti: "t < length prog" "i < length (prog ! t)" and ne: "\<not> executed st t i"
      and inv1: "tso_inv prog st1" and ex1: "executed st1 = mark (executed st) t i True"
    for t i st1 S'
  proof (cases "all_executed prog (executed st1)")
    case True
    then show ?thesis
      by (auto simp: tso_continue_def add_possible_execution_tso_def outcome_def)
  next
    case False
    have lt: "unexecuted prog (executed st1) < unexecuted prog (executed st)"
      unfolding ex1 using ti ne by (rule unexecuted_mark')
    from False have "unexecuted prog (executed st1) \<noteq> 0"
      by (simp add: all_executed_unexecuted)
    with lt bound obtain n where n: "fuel = Suc n" and b1: "unexecuted prog (executed st1) \<le> Suc n"
      by (cases fuel) auto
    have "gpe_tso n prog (positions prog) st1 S' =
        Inr (st1, S' \<union> {out. \<exists>(t, i) \<in> set (positions prog). tso_branch prog st1 t i out})"
      by (rule less.IH) (use n inv1 b1 in auto)
    then show ?thesis
      using False n by (simp add: tso_continue_def tso_sol_iff)
  qed
  from \<open>set ps \<subseteq> set (positions prog)\<close> show ?case
  proof (induction ps arbitrary: S)
    case Nil
    then show ?case by simp
  next
    case (Cons p ps)
    obtain t i where p: "p = (t, i)" by (cases p)
    from Cons.prems p have ti: "t < length prog" "i < length (prog ! t)"
      and sub: "set ps \<subseteq> set (positions prog)"
      by (auto simp: in_positions)
    show ?case
    proof (cases "\<not> executed st t i \<and> \<not> has_po_dependencies prog (po st) t i")
      case False
      then have "gpe_tso fuel prog (p # ps) st S = gpe_tso fuel prog ps st S"
        unfolding p by (intro gpe_tso_skip) auto
      moreover from False have "\<And>out. \<not> tso_branch prog st t i out"
        by (auto simp: tso_branch_def)
      ultimately show ?thesis
        using Cons.IH [OF sub, of S] by (simp add: p)
    next
      case True
      then have ne: "\<not> executed st t i" and nd: "\<not> has_po_dependencies prog (po st) t i"
        by auto
      from tso_step [OF inv ti ne] obtain old st1 where
        e: "tso_execute prog t i st = Inr (old, st1)" and inv1: "tso_inv prog st1"
        and a: "tso_again prog t i st1 = Inr None \<or> tso_again prog t i st1 = Inr (Some st1)"
        and r: "tso_reverse prog t i old st1 = Inr st"
        and ex1: "executed st1 = mark (executed st) t i True"
        by blast
      define B where "B = {out. if all_executed prog (executed st1) then out = outcome prog st1
                      else tso_sol prog st1 out}"
      have B: "B = {out. tso_branch prog st t i out}"
        using ne nd e by (auto simp: tso_branch_def B_def)
      have c1: "tso_continue fuel prog st1 S = Inr (st1, S \<union> B)"
        unfolding B_def by (rule cont [OF ti ne inv1 ex1])
      have "tso_continue fuel prog st1 (S \<union> B) = Inr (st1, (S \<union> B) \<union> B)"
        unfolding B_def by (rule cont [OF ti ne inv1 ex1])
      then have c2: "tso_continue fuel prog st1 (S \<union> B) = Inr (st1, S \<union> B)"
        by (simp add: Un_assoc)
      have "(case tso_again prog t i st1 of
               Inl e \<Rightarrow> Inl e
             | Inr None \<Rightarrow> Inr (st1, S \<union> B)
             | Inr (Some st3) \<Rightarrow> tso_continue fuel prog st3 (S \<union> B)) = Inr (st1, S \<union> B)"
        using a
      proof
        assume "tso_again prog t i st1 = Inr None"
        then show ?thesis by simp
      next
        assume "tso_again prog t i st1 = Inr (Some st1)"
        then show ?thesis by (simp add: c2)
      qed
      then have "gpe_tso fuel prog (p # ps) st S = gpe_tso fuel prog ps st (S \<union> B)"
        unfolding p using c1 e r
        by (subst gpe_tso_exec [OF ne nd]) simp
      also have "\<dots> = Inr (st, (S \<union> B) \<union> {out. \<exists>(t, i) \<in> set ps. tso_branch prog st t i out})"
        by (rule Cons.IH [OF sub])
      also have "(S \<union> B) \<union> {out. \<exists>(t, i) \<in> set ps. tso_branch prog st t i out} =
          S \<union> {out. \<exists>(t, i) \<in> set (p # ps). tso_branch prog st t i out}"
        unfolding B p by auto
      finally show ?thesis .
    qed
  qed
qed

subsection \<open>Every store-atomic outcome is a relaxed outcome\<close>

lemma tso_edge_ibm: "tso_edge prog t d i \<Longrightarrow> ibm_edge prog t d i"
  by (auto simp: tso_edge_def ibm_edge_def split: if_splits)

lemma deps_sim:
  assumes "po_consistent ibm_edge prog st" and "po_consistent tso_edge prog st'"
    and "executed st = executed st'" and "t < length prog" and "i < length (prog ! t)"
    and "\<not> has_po_dependencies prog (po st) t i"
  shows "\<not> has_po_dependencies prog (po st') t i"
proof
  assume "has_po_dependencies prog (po st') t i"
  then obtain d where d: "d < length (prog ! t)" "po st' t i d"
    by (auto simp: has_po_dependencies_iff)
  with assms(2,4,5) have "\<not> executed st' t d \<and> d < i \<and> tso_edge prog t i d"
    unfolding po_consistent_iff by blast
  then have "\<not> executed st t d \<and> d < i \<and> ibm_edge prog t i d"
    using assms(3) tso_edge_ibm by simp
  with assms(1,4,5) d(1) have "po st t i d"
    unfolding po_consistent_iff by blast
  with d(1) assms(6) show False
    by (auto simp: has_po_dependencies_iff)
qed

lemma ibm_eligible_not_pending:
  assumes pc: "po_consistent ibm_edge prog st" and t: "t < length prog"
    and i: "i < length (prog ! t)" and ld: "\<not> store (prog ! t ! i)"
    and nd: "\<not> has_po_dependencies prog (po st) t i"
  shows "\<not> pending prog (executed st) t i"
proof
  assume "pending prog (executed st) t i"
  then obtain k where k: "k < i" "store (prog ! t ! k)" "mem (prog ! t ! k) = mem (prog ! t ! i)"
    and nex: "\<not> executed st t k"
    by (auto simp: pending_def is_prevstore_from_iff is_prevstore_executed_from_iff)
  from k i have kn: "k < length (prog ! t)" by simp
  have "ibm_edge prog t i k" using k by (simp add: ibm_edge_def)
  with pc t i kn nex k(1) have "po st t i k"
    unfolding po_consistent_iff by blast
  with kn nd show False by (auto simp: has_po_dependencies_iff)
qed

lemma sim_step:
  assumes inv: "ibm_inv prog st" and core: "core_eq st st'"
    and t: "t < length prog" and i: "i < length (prog ! t)"
    and nd: "\<not> has_po_dependencies prog (po st) t i"
    and e: "ibm_execute prog t i st = Inr (old, st1)"
  shows "\<exists>old' st1'. tso_execute prog t i st' = Inr (old', st1') \<and> core_eq st1 st1'"
proof (cases "store (prog ! t ! i)")
  case True
  from e True obtain m where
    u: "update_memvar (memory st) (mem (prog ! t ! i)) (val (prog ! t ! i)) = Inr (old, m)"
    and st1: "st1 = st\<lparr>executed := mark (executed st) t i True, memory := m,
                         po := remove_po prog t i (po st)\<rparr>"
    by (auto simp: ibm_execute_store split: sum.splits)
  have g: "get_memvar (memory st) (mem (prog ! t ! i)) = Inr old"
    using update_memvar_ok [OF u] by simp
  show ?thesis
    using True u g core by (simp add: tso_execute_store st1 core_eq_def)
next
  case False
  from e False obtain x where
    g: "get_memvar (memory st) (mem (prog ! t ! i)) = Inr x"
    and st1: "st1 = st\<lparr>executed := mark (executed st) t i True,
                  loadvalues := put_load (loadvalues st) t i x,
                  po := remove_po prog t i (po st)\<rparr>"
    by (auto simp: ibm_execute_load split: sum.splits)
  have "\<not> pending prog (executed st) t i"
    using inv t i False nd by (intro ibm_eligible_not_pending) (simp_all add: ibm_inv_def)
  then have "tso_load_value prog st' t i = Inr x"
    using g core by (simp add: tso_load_value_def core_eq_def)
  then show ?thesis
    using False g core by (simp add: tso_execute_load st1 core_eq_def)
qed

lemma outcome_core_eq: "core_eq st st' \<Longrightarrow> outcome prog st = outcome prog st'"
  by (simp add: core_eq_def outcome_def)

lemma ibm_sol_tso_sol:
  assumes "ibm_sol prog st out" and "ibm_inv prog st" and "tso_inv prog st'"
    and "core_eq st st'"
  shows "tso_sol prog st' out"
  using assms
proof (induction arbitrary: st' rule: ibm_sol.induct)
  case (ibm_last t i st old st1)
  from sim_step [OF ibm_last.prems(1,3) ibm_last.hyps(1,2,4,5)]
  obtain old' st1' where e': "tso_execute prog t i st' = Inr (old', st1')"
    and c1: "core_eq st1 st1'" by blast
  have ne': "\<not> executed st' t i"
    using ibm_last.hyps(3) ibm_last.prems(3) by (simp add: core_eq_def)
  have nd': "\<not> has_po_dependencies prog (po st') t i"
    using ibm_last.prems ibm_last.hyps
    by (intro deps_sim [of prog st st']) (simp_all add: ibm_inv_def tso_inv_def core_eq_def)
  have "all_executed prog (executed st1')"
    using ibm_last.hyps(6) c1 by (simp add: core_eq_def)
  from tso_last [OF ibm_last.hyps(1,2) ne' nd' e' this]
  show ?case by (simp add: outcome_core_eq [OF c1])
next
  case (ibm_more t i st old st1 out)
  from sim_step [OF ibm_more.prems(1,3) ibm_more.hyps(1,2,4,5)]
  obtain old' st1' where e': "tso_execute prog t i st' = Inr (old', st1')"
    and c1: "core_eq st1 st1'" by blast
  have ne': "\<not> executed st' t i"
    using ibm_more.hyps(3) ibm_more.prems(3) by (simp add: core_eq_def)
  have nd': "\<not> has_po_dependencies prog (po st') t i"
    using ibm_more.prems ibm_more.hyps
    by (intro deps_sim [of prog st st']) (simp_all add: ibm_inv_def tso_inv_def core_eq_def)
  have na: "\<not> all_executed prog (executed st1')"
    using ibm_more.hyps(6) c1 by (simp add: core_eq_def)
  have inv1: "ibm_inv prog st1"
    using ibm_step [OF ibm_more.prems(1) ibm_more.hyps(1,2,3)] ibm_more.hyps(5)
    by (metis Inr_inject prod.inject)
  have inv1': "tso_inv prog st1'"
    using tso_step [OF ibm_more.prems(2) ibm_more.hyps(1,2) ne'] e'
    by (metis Inr_inject prod.inject)
  have "tso_sol prog st1' out"
    by (rule ibm_more.IH [OF inv1 inv1' c1])
  from tso_more [OF ibm_more.hyps(1,2) ne' nd' e' na this]
  show ?case .
qed

lemma unexecuted_reset:
  "unexecuted prog (reset_executed prog ex) = length (positions prog)"
proof -
  have "filter (\<lambda>(t, i). \<not> reset_executed prog ex t i) (positions prog) = positions prog"
    by (auto simp: filter_id_conv reset_executed_apply)
  then show ?thesis by (simp add: unexecuted_def)
qed

lemma start_ibm_inv:
  assumes "registered prog (memory st0)" and "zero_loads prog (loadvalues st0)"
  shows "ibm_inv prog (st0\<lparr>executed := reset_executed prog (executed st0),
                          po := build_po_graph_ibm prog (po st0)\<rparr>)"
  using assms
  by (simp add: ibm_inv_def po_consistent_iff loads_zero_iff zero_loads_def
      list_all_positions reset_executed_apply in_positions build_po_graph_ibm_def
      build_po_ibm_fold)

lemma start_tso_inv:
  assumes "registered prog (memory st0)" and "zero_loads prog (loadvalues st0)"
  shows "tso_inv prog (st0\<lparr>executed := reset_executed prog (executed st0),
                          po := build_po_graph_tso prog (po st0)\<rparr>)"
  using assms
  by (simp add: tso_inv_def po_consistent_iff loads_zero_iff zero_loads_def
      list_all_positions reset_executed_apply in_positions build_po_graph_tso_def
      build_po_tso_fold)

lemma run_models_char:
  assumes rg: "registered prog (memory st0)" and z: "zero_loads prog (loadvalues st0)"
    and f: "length (positions prog) \<le> Suc fuel"
  shows "run_models fuel prog st0 =
           Inr ({out. ibm_sol prog (start_ibm prog st0) out},
                {out. tso_sol prog (start_tso prog st0) out})"
proof -
  have i1: "ibm_inv prog (start_ibm prog st0)"
    unfolding start_ibm_def using rg z by (rule start_ibm_inv)
  have u1: "unexecuted prog (executed (start_ibm prog st0)) \<le> Suc fuel"
    using f by (simp add: start_ibm_def unexecuted_reset)
  have g1: "get_possible_executions_ibm fuel prog (start_ibm prog st0) {} =
      Inr (start_ibm prog st0, {out. ibm_sol prog (start_ibm prog st0) out})"
    unfolding get_possible_executions_ibm_def
    using gpe_ibm_char [OF i1 u1 subset_refl, of "{}"] by (simp add: ibm_sol_iff)
  have s: "(start_ibm prog st0)\<lparr>executed := reset_executed prog (executed (start_ibm prog st0)),
        po := build_po_graph_tso prog (po (start_ibm prog st0))\<rparr> = start_tso prog st0"
    by (rule state.equality)
       (auto simp: start_ibm_def start_tso_def fun_eq_iff reset_executed_apply
         build_po_graph_tso_def build_po_tso_fold build_po_graph_ibm_def build_po_ibm_fold)
  have i2: "tso_inv prog (start_tso prog st0)"
    unfolding start_tso_def using rg z by (rule start_tso_inv)
  have u2: "unexecuted prog (executed (start_tso prog st0)) \<le> Suc fuel"
    using f by (simp add: start_tso_def unexecuted_reset)
  have g2: "get_possible_executions_tso fuel prog (start_tso prog st0) {} =
      Inr (start_tso prog st0, {out. tso_sol prog (start_tso prog st0) out})"
    unfolding get_possible_executions_tso_def
    using gpe_tso_char [OF i2 u2 subset_refl, of "{}"] by (simp add: tso_sol_iff)
  show ?thesis
    unfolding run_models_def Let_def
    using g1 g2 s by (simp add: start_ibm_def)
qed

lemma registered_loaded: "registered prog (loaded_memory prog)"
  unfolding registered_iff loaded_memory_keys
  by (metis image_eqI nth_mem set_concat UN_I)

lemma relaxation_sub:
  assumes rg: "registered prog (memory st0)" and z: "zero_loads prog (loadvalues st0)"
  shows "{out. ibm_sol prog (start_ibm prog st0) out} \<subseteq>
         {out. tso_sol prog (start_tso prog st0) out}"
proof -
  have i1: "ibm_inv prog (start_ibm prog st0)"
    unfolding start_ibm_def using rg z by (rule start_ibm_inv)
  have i2: "tso_inv prog (start_tso prog st0)"
    unfolding start_tso_def using rg z by (rule start_tso_inv)
  have c: "core_eq (start_ibm prog st0) (start_tso prog st0)"
    by (simp add: core_eq_def start_ibm_def start_tso_def)
  show ?thesis
    using ibm_sol_tso_sol [OF _ i1 i2 c] by blast
qed

subsection \<open>The store-atomic search in an arbitrary state\<close>

lemma frame_ok_Inr [simp]:
  "frame_ok prog b st (Inr (st', S')) \<longleftrightarrow>
     executed st' = executed st \<and> keys (memory st') = keys (memory st) \<and>
     (loads_zero prog st \<longrightarrow> loadvalues st' = loadvalues st)"
  by (simp add: frame_ok_def)

lemma frame_ok_Inl [simp]:
  "frame_ok prog b st (Inl e) \<longleftrightarrow>
     (e = Unknown_memvar \<and> \<not> registered prog (memory st)) \<or>
     (e = Out_of_fuel \<and> b < unexecuted prog (executed st))"
  by (simp add: frame_ok_def)

lemma registered_keys: "keys m = keys m' \<Longrightarrow> registered prog m = registered prog m'"
  by (simp add: registered_iff)

lemma loads_zero_cong:
  "executed st = executed st' \<Longrightarrow> loadvalues st = loadvalues st' \<Longrightarrow>
   loads_zero prog st = loads_zero prog st'"
  by (simp add: loads_zero_iff)

lemma frame_ok_trans:
  assumes "executed st3 = executed st" and "keys (memory st3) = keys (memory st)"
    and "loads_zero prog st \<Longrightarrow> loadvalues st3 = loadvalues st"
    and "frame_ok prog b st3 r"
  shows "frame_ok prog b st r"
proof (cases r)
  case (Inl e)
  with assms show ?thesis by (auto simp: registered_keys [OF assms(2)])
next
  case (Inr q)
  obtain st' S' where q: "q = (st', S')" by (cases q)
  show ?thesis
  proof (cases "loads_zero prog st")
    case True
    then have lv: "loadvalues st3 = loadvalues st" by (rule assms(3))
    with True assms(1) have "loads_zero prog st3"
      by (simp add: loads_zero_cong [of st3 st])
    with assms Inr q lv show ?thesis by simp
  next
    case False
    with assms Inr q show ?thesis by simp
  qed
qed

lemma ibm_execute_frame:
  assumes "ibm_execute prog t i st = Inr (old, st1)"
  shows "executed st1 = mark (executed st) t i True"
    and "keys (memory st1) = keys (memory st)"
    and "loadvalues st1 = loadvalues st \<or>
         (\<not> store (prog ! t ! i) \<and> (\<exists>x. loadvalues st1 = put_load (loadvalues st) t i x))"
proof -
  show "executed st1 = mark (executed st) t i True"
    using assms by (cases "store (prog ! t ! i)")
      (auto simp: ibm_execute_store ibm_execute_load split: sum.splits)
  show "keys (memory st1) = keys (memory st)"
    using assms by (cases "store (prog ! t ! i)")
      (auto simp: ibm_execute_store ibm_execute_load split: sum.splits dest: update_memvar_ok)
  show "loadvalues st1 = loadvalues st \<or>
         (\<not> store (prog ! t ! i) \<and> (\<exists>x. loadvalues st1 = put_load (loadvalues st) t i x))"
    using assms by (cases "store (prog ! t ! i)")
      (auto simp: ibm_execute_store ibm_execute_load split: sum.splits)
qed

lemma ibm_reverse_frame:
  assumes "ibm_reverse prog t i old st = Inr st1"
  shows "executed st1 = mark (executed st) t i False"
    and "keys (memory st1) = keys (memory st)"
    and "loadvalues st1 =
           (if store (prog ! t ! i) then loadvalues st else put_load (loadvalues st) t i 0)"
proof -
  show "executed st1 = mark (executed st) t i False"
    using assms by (cases "store (prog ! t ! i)")
      (auto simp: ibm_reverse_store ibm_reverse_load split: sum.splits)
  show "keys (memory st1) = keys (memory st)"
    using assms by (cases "store (prog ! t ! i)")
      (auto simp: ibm_reverse_store ibm_reverse_load split: sum.splits dest: update_memvar_ok)
  show "loadvalues st1 =
           (if store (prog ! t ! i) then loadvalues st else put_load (loadvalues st) t i 0)"
    using assms by (cases "store (prog ! t ! i)")
      (auto simp: ibm_reverse_store ibm_reverse_load split: sum.splits)
qed

lemma ibm_execute_fail:
  "ibm_execute prog t i st = Inl e \<Longrightarrow>
     e = Unknown_memvar \<and> mem (prog ! t ! i) \<notin> keys (memory st)"
  by (cases "store (prog ! t ! i)")
     (auto simp: ibm_execute_store ibm_execute_load split: sum.splits
       dest: update_memvar_err get_memvar_err)

lemma ibm_reverse_fail:
  "ibm_reverse prog t i old st = Inl e \<Longrightarrow>
     e = Unknown_memvar \<and> mem (prog ! t ! i) \<notin> keys (memory st)"
  by (cases "store (prog ! t ! i)")
     (auto simp: ibm_reverse_store ibm_reverse_load split: sum.splits
       dest: update_memvar_err)

lemma not_registered:
  "t < length prog \<Longrightarrow> i < length (prog ! t) \<Longrightarrow> mem (prog ! t ! i) \<notin> keys m \<Longrightarrow>
   \<not> registered prog m"
  by (auto simp: registered_iff)

lemma loads_zero_marked:
  assumes "loads_zero prog st" and "executed st1 = mark (executed st) t i True"
    and "loadvalues st1 = loadvalues st \<or> (\<exists>x. loadvalues st1 = put_load (loadvalues st) t i x)"
  shows "loads_zero prog st1"
  using assms by (auto simp: loads_zero_iff mark_apply put_load_apply)

lemma step_frame:
  assumes ti: "t < length prog" "i < length (prog ! t)" and ne: "\<not> executed st t i"
    and ex1: "executed st1 = mark (executed st) t i True"
    and k1: "keys (memory st1) = keys (memory st)"
    and l1: "loadvalues st1 = loadvalues st \<or>
             (\<not> store (prog ! t ! i) \<and> (\<exists>x. loadvalues st1 = put_load (loadvalues st) t i x))"
    and f2: "frame_ok prog b st1 (Inr (st2, S2))"
    and ex3: "executed st3 = mark (executed st2) t i False"
    and k3: "keys (memory st3) = keys (memory st2)"
    and l3: "loadvalues st3 =
           (if store (prog ! t ! i) then loadvalues st2 else put_load (loadvalues st2) t i 0)"
  shows "executed st3 = executed st \<and> keys (memory st3) = keys (memory st) \<and>
         (loads_zero prog st \<longrightarrow> loadvalues st3 = loadvalues st)"
proof (intro conjI impI)
  from f2 have ex2: "executed st2 = executed st1" and k2: "keys (memory st2) = keys (memory st1)"
    and l2: "loads_zero prog st1 \<Longrightarrow> loadvalues st2 = loadvalues st1"
    by simp_all
  show "executed st3 = executed st"
    using ex3 ex2 ex1 ne by (simp add: mark_restore)
  show "keys (memory st3) = keys (memory st)"
    using k3 k2 k1 by simp
  assume lz: "loads_zero prog st"
  have lz1: "loads_zero prog st1"
    using lz ex1 l1 by (intro loads_zero_marked [of prog st st1 t i]) auto
  have z: "loadvalues st t i = 0"
    using lz ti ne by (simp add: loads_zero_iff)
  from l1 show "loadvalues st3 = loadvalues st"
  proof
    assume a: "loadvalues st1 = loadvalues st"
    show ?thesis
    proof (cases "store (prog ! t ! i)")
      case True
      with a l2 [OF lz1] l3 show ?thesis by simp
    next
      case False
      with a l2 [OF lz1] l3 z show ?thesis
        by (auto simp: put_load_apply fun_eq_iff)
    qed
  next
    assume "\<not> store (prog ! t ! i) \<and> (\<exists>x. loadvalues st1 = put_load (loadvalues st) t i x)"
    with l2 [OF lz1] l3 z show ?thesis
      by (auto simp: put_load_restore)
  qed
qed

lemma gpe_ibm_frame:
  assumes "set ps \<subseteq> set (positions prog)"
  shows "frame_ok prog (Suc fuel) st (gpe_ibm fuel prog ps st S)"
  using assms
proof (induction fuel arbitrary: st S ps rule: less_induct)
  case (less fuel)
  have cont: "frame_ok prog fuel st1 (ibm_continue fuel prog st1 S1)" for st1 S1
  proof (cases "all_executed prog (executed st1)")
    case True
    then show ?thesis by (simp add: ibm_continue_def)
  next
    case False
    then have pos: "0 < unexecuted prog (executed st1)"
      by (simp add: all_executed_unexecuted)
    show ?thesis
    proof (cases fuel)
      case 0
      with False pos show ?thesis by (simp add: ibm_continue_def)
    next
      case (Suc n)
      have "frame_ok prog (Suc n) st1 (gpe_ibm n prog (positions prog) st1 S1)"
        by (rule less.IH) (use Suc in auto)
      with False Suc show ?thesis by (simp add: ibm_continue_def)
    qed
  qed
  from \<open>set ps \<subseteq> set (positions prog)\<close> show ?case
  proof (induction ps arbitrary: st S)
    case Nil
    then show ?case by simp
  next
    case (Cons p ps)
    obtain t i where p: "p = (t, i)" by (cases p)
    from Cons.prems p have ti: "t < length prog" "i < length (prog ! t)"
      and sub: "set ps \<subseteq> set (positions prog)"
      by (auto simp: in_positions)
    show ?case
    proof (cases "\<not> executed st t i \<and> \<not> has_po_dependencies prog (po st) t i")
      case False
      then have "gpe_ibm fuel prog (p # ps) st S = gpe_ibm fuel prog ps st S"
        unfolding p by (intro gpe_ibm_skip) auto
      then show ?thesis using Cons.IH [OF sub, of st S] by simp
    next
      case True
      then have ne: "\<not> executed st t i" and nd: "\<not> has_po_dependencies prog (po st) t i"
        by auto
      note unfold = gpe_ibm_exec [OF ne nd, of fuel ps S]
      show ?thesis
      proof (cases "ibm_execute prog t i st")
        case (Inl e)
        with ibm_execute_fail [OF Inl] not_registered [OF ti] show ?thesis
          unfolding p unfold by simp
      next
        case (Inr q)
        obtain old st1 where q: "q = (old, st1)" by (cases q)
        note e = Inr [unfolded q]
        note f1 = ibm_execute_frame [OF e]
        have lt: "unexecuted prog (executed st1) < unexecuted prog (executed st)"
          unfolding f1(1) using ti ne by (rule unexecuted_mark')
        have rg1: "registered prog (memory st1) = registered prog (memory st)"
          by (rule registered_keys [OF f1(2)])
        show ?thesis
        proof (cases "ibm_continue fuel prog st1 S")
          case (Inl e')
          with cont [of st1 S] lt rg1 e show ?thesis
            unfolding p unfold by auto
        next
          case (Inr q2)
          obtain st2 S2 where q2: "q2 = (st2, S2)" by (cases q2)
          note c = Inr [unfolded q2]
          from cont [of st1 S] c have f2: "frame_ok prog fuel st1 (Inr (st2, S2))" by simp
          then have k2: "keys (memory st2) = keys (memory st1)" by simp
          show ?thesis
          proof (cases "ibm_reverse prog t i old st2")
            case (Inl e')
            from ibm_reverse_fail [OF Inl] k2 f1(2)
            have "e' = Unknown_memvar" "mem (prog ! t ! i) \<notin> keys (memory st)" by auto
            with not_registered [OF ti] Inl e c show ?thesis
              unfolding p unfold by simp
          next
            case (Inr st3)
            note f3 = ibm_reverse_frame [OF Inr]
            note sf = step_frame [OF ti ne f1 f2 f3]
            have "frame_ok prog (Suc fuel) st (gpe_ibm fuel prog ps st3 S2)"
            proof (rule frame_ok_trans)
              show "executed st3 = executed st" using sf by simp
              show "keys (memory st3) = keys (memory st)" using sf by simp
              show "loadvalues st3 = loadvalues st" if "loads_zero prog st"
                using that sf by simp
              show "frame_ok prog (Suc fuel) st3 (gpe_ibm fuel prog ps st3 S2)"
                by (rule Cons.IH [OF sub])
            qed
            with Inr e c show ?thesis
              unfolding p unfold by simp
          qed
        qed
      qed
    qed
  qed
qed

subsection \<open>The relaxed search in an arbitrary state\<close>

lemma tso_execute_frame:
  assumes "tso_execute prog t i st = Inr (old, st1)"
  shows "executed st1 = mark (executed st) t i True"
    and "keys (memory st1) = keys (memory st)"
    and "loadvalues st1 = loadvalues st \<or>
         (\<not> store (prog ! t ! i) \<and> (\<exists>x. loadvalues st1 = put_load (loadvalues st) t i x))"
proof -
  show "executed st1 = mark (executed st) t i True"
    using assms by (cases "store (prog ! t ! i)")
      (auto simp: tso_execute_store tso_execute_load split: sum.splits)
  show "keys (memory st1) = keys (memory st)"
    using assms by (cases "store (prog ! t ! i)")
      (auto simp: tso_execute_store tso_execute_load split: sum.splits dest: update_memvar_ok)
  show "loadvalues st1 = loadvalues st \<or>
         (\<not> store (prog ! t ! i) \<and> (\<exists>x. loadvalues st1 = put_load (loadvalues st) t i x))"
    using assms by (cases "store (prog ! t ! i)")
      (auto simp: tso_execute_store tso_execute_load split: sum.splits)
qed

lemma tso_load_value_fail:
  "tso_load_value prog st t i = Inl e \<Longrightarrow>
     e = Unknown_memvar \<and> mem (prog ! t ! i) \<notin> keys (memory st)"
  using get_prevstore_from_ok [of "prog ! t" "mem (prog ! t ! i)" i]
  by (auto simp: tso_load_value_def pending_def split: if_splits dest: get_memvar_err)

lemma tso_execute_fail:
  "tso_execute prog t i st = Inl e \<Longrightarrow>
     e = Unknown_memvar \<and> mem (prog ! t ! i) \<notin> keys (memory st)"
  by (cases "store (prog ! t ! i)")
     (auto simp: tso_execute_store tso_execute_load split: sum.splits
       dest: update_memvar_err get_memvar_err tso_load_value_fail)

lemma tso_again_fail: "tso_again prog t i st = Inl e \<Longrightarrow> False"
  using get_prevstore_from_ok [of "prog ! t" "mem (prog ! t ! i)" i]
  by (cases "store (prog ! t ! i)")
     (auto simp: tso_again_store tso_again_load pending_def split: if_splits sum.splits)

lemma tso_again_frame:
  assumes "tso_again prog t i st = Inr (Some st1)"
  shows "executed st1 = executed st" and "memory st1 = memory st"
    and "\<not> store (prog ! t ! i) \<and> (\<exists>x. loadvalues st1 = put_load (loadvalues st) t i x)"
  using assms
  by (cases "store (prog ! t ! i)";
      auto simp: tso_again_store tso_again_load split: if_splits sum.splits)+

lemma tso_reverse_frame:
  assumes "tso_reverse prog t i old st = Inr st1"
  shows "executed st1 = mark (executed st) t i False"
    and "keys (memory st1) = keys (memory st)"
    and "loadvalues st1 =
           (if store (prog ! t ! i) then loadvalues st else put_load (loadvalues st) t i 0)"
proof -
  show "executed st1 = mark (executed st) t i False"
    using assms by (cases "store (prog ! t ! i)")
      (auto simp: tso_reverse_store tso_reverse_load split: sum.splits)
  show "keys (memory st1) = keys (memory st)"
    using assms by (cases "store (prog ! t ! i)")
      (auto simp: tso_reverse_store tso_reverse_load split: sum.splits dest: update_memvar_ok)
  show "loadvalues st1 =
           (if store (prog ! t ! i) then loadvalues st else put_load (loadvalues st) t i 0)"
    using assms by (cases "store (prog ! t ! i)")
      (auto simp: tso_reverse_store tso_reverse_load split: sum.splits)
qed

lemma tso_reverse_fail:
  "tso_reverse prog t i old st = Inl e \<Longrightarrow>
     e = Unknown_memvar \<and> mem (prog ! t ! i) \<notin> keys (memory st)"
  by (cases "store (prog ! t ! i)")
     (auto simp: tso_reverse_store tso_reverse_load split: sum.splits
       dest: update_memvar_err)

lemma tso_step_frame:
  assumes ti: "t < length prog" "i < length (prog ! t)" and ne: "\<not> executed st t i"
    and ex1: "executed st1 = mark (executed st) t i True"
    and k1: "keys (memory st1) = keys (memory st)"
    and l1: "loadvalues st1 = loadvalues st \<or>
             (\<not> store (prog ! t ! i) \<and> (\<exists>x. loadvalues st1 = put_load (loadvalues st) t i x))"
    and ex2: "executed st2 = executed st1"
    and k2: "keys (memory st2) = keys (memory st1)"
    and l2: "loads_zero prog st1 \<Longrightarrow> loadvalues st2 = loadvalues st1 \<or>
             (\<not> store (prog ! t ! i) \<and> (\<exists>x. loadvalues st2 = put_load (loadvalues st1) t i x))"
    and ex3: "executed st3 = mark (executed st2) t i False"
    and k3: "keys (memory st3) = keys (memory st2)"
    and l3: "loadvalues st3 =
           (if store (prog ! t ! i) then loadvalues st2 else put_load (loadvalues st2) t i 0)"
  shows "executed st3 = executed st \<and> keys (memory st3) = keys (memory st) \<and>
         (loads_zero prog st \<longrightarrow> loadvalues st3 = loadvalues st)"
proof (intro conjI impI)
  show "executed st3 = executed st"
    using ex3 ex2 ex1 ne by (simp add: mark_restore)
  show "keys (memory st3) = keys (memory st)"
    using k3 k2 k1 by simp
  assume lz: "loads_zero prog st"
  have lz1: "loads_zero prog st1"
    using lz ex1 l1 by (intro loads_zero_marked [of prog st st1 t i]) auto
  have z: "loadvalues st t i = 0"
    using lz ti ne by (simp add: loads_zero_iff)
  have same: "put_load (loadvalues st) t i 0 = loadvalues st"
    using z by (auto simp: put_load_apply fun_eq_iff)
  show "loadvalues st3 = loadvalues st"
  proof (cases "store (prog ! t ! i)")
    case True
    with l1 l2 [OF lz1] l3 show ?thesis by auto
  next
    case False
    from l1 l2 [OF lz1] same have "\<exists>y. loadvalues st2 = put_load (loadvalues st) t i y"
      by (metis put_load_twice)
    with l3 False same show ?thesis
      by (auto simp: put_load_twice)
  qed
qed

lemma gpe_tso_frame:
  assumes "set ps \<subseteq> set (positions prog)"
  shows "frame_ok prog (Suc fuel) st (gpe_tso fuel prog ps st S)"
  using assms
proof (induction fuel arbitrary: st S ps rule: less_induct)
  case (less fuel)
  have cont: "frame_ok prog fuel st1 (tso_continue fuel prog st1 S1)" for st1 S1
  proof (cases "all_executed prog (executed st1)")
    case True
    then show ?thesis by (simp add: tso_continue_def)
  next
    case False
    then have pos: "0 < unexecuted prog (executed st1)"
      by (simp add: all_executed_unexecuted)
    show ?thesis
    proof (cases fuel)
      case 0
      with False pos show ?thesis by (simp add: tso_continue_def)
    next
      case (Suc n)
      have "frame_ok prog (Suc n) st1 (gpe_tso n prog (positions prog) st1 S1)"
        by (rule less.IH) (use Suc in auto)
      with False Suc show ?thesis by (simp add: tso_continue_def)
    qed
  qed
  from \<open>set ps \<subseteq> set (positions prog)\<close> show ?case
  proof (induction ps arbitrary: st S)
    case Nil
    then show ?case by simp
  next
    case (Cons p ps)
    obtain t i where p: "p = (t, i)" by (cases p)
    from Cons.prems p have ti: "t < length prog" "i < length (prog ! t)"
      and sub: "set ps \<subseteq> set (positions prog)"
      by (auto simp: in_positions)
    show ?case
    proof (cases "\<not> executed st t i \<and> \<not> has_po_dependencies prog (po st) t i")
      case False
      then have "gpe_tso fuel prog (p # ps) st S = gpe_tso fuel prog ps st S"
        unfolding p by (intro gpe_tso_skip) auto
      then show ?thesis using Cons.IH [OF sub, of st S] by simp
    next
      case True
      then have ne: "\<not> executed st t i" and nd: "\<not> has_po_dependencies prog (po st) t i"
        by auto
      note unfold = gpe_tso_exec [OF ne nd, of fuel ps S]
      show ?thesis
      proof (cases "tso_execute prog t i st")
        case (Inl e)
        with tso_execute_fail [OF Inl] not_registered [OF ti] show ?thesis
          unfolding p unfold by simp
      next
        case (Inr q)
        obtain old st1 where q: "q = (old, st1)" by (cases q)
        note e = Inr [unfolded q]
        note f1 = tso_execute_frame [OF e]
        have lt: "unexecuted prog (executed st1) < unexecuted prog (executed st)"
          unfolding f1(1) using ti ne by (rule unexecuted_mark')
        have rg1: "registered prog (memory st1) = registered prog (memory st)"
          by (rule registered_keys [OF f1(2)])
        show ?thesis
        proof (cases "tso_continue fuel prog st1 S")
          case (Inl e')
          with cont [of st1 S] lt rg1 e show ?thesis
            unfolding p unfold by auto
        next
          case (Inr q2)
          obtain st2 S2 where q2: "q2 = (st2, S2)" by (cases q2)
          note c = Inr [unfolded q2]
          from cont [of st1 S] c have ex2: "executed st2 = executed st1"
            and k2: "keys (memory st2) = keys (memory st1)"
            and l2: "loads_zero prog st1 \<Longrightarrow> loadvalues st2 = loadvalues st1"
            by simp_all
          define mid where "mid = (case tso_again prog t i st2 of
                     Inl e \<Rightarrow> Inl e
                   | Inr None \<Rightarrow> Inr (st2, S2)
                   | Inr (Some st3) \<Rightarrow> tso_continue fuel prog st3 S2)"
          have g: "gpe_tso fuel prog (p # ps) st S =
              (case mid of
                 Inl e \<Rightarrow> Inl e
               | Inr (st4, sols4) \<Rightarrow>
                   (case tso_reverse prog t i old st4 of
                      Inl e \<Rightarrow> Inl e
                    | Inr st5 \<Rightarrow> gpe_tso fuel prog ps st5 sols4))"
            unfolding p unfold mid_def using e c by simp
          have midp: "(case mid of
               Inl e' \<Rightarrow> (e' = Unknown_memvar \<and> \<not> registered prog (memory st)) \<or>
                         (e' = Out_of_fuel \<and> Suc fuel < unexecuted prog (executed st))
             | Inr (st4, S4) \<Rightarrow> executed st4 = executed st1 \<and>
                 keys (memory st4) = keys (memory st1) \<and>
                 (loads_zero prog st1 \<longrightarrow> loadvalues st4 = loadvalues st1 \<or>
                   (\<not> store (prog ! t ! i) \<and>
                    (\<exists>x. loadvalues st4 = put_load (loadvalues st1) t i x))))"
          proof (cases "tso_again prog t i st2")
            case (Inl e')
            then show ?thesis using tso_again_fail by blast
          next
            case (Inr o3)
            show ?thesis
            proof (cases o3)
              case None
              with Inr ex2 k2 l2 show ?thesis by (simp add: mid_def)
            next
              case (Some st3)
              note a = tso_again_frame [OF Inr [unfolded Some]]
              have m: "mid = tso_continue fuel prog st3 S2"
                using Inr Some by (simp add: mid_def)
              have ex3: "executed st3 = executed st1" using a(1) ex2 by simp
              have k3: "keys (memory st3) = keys (memory st1)" using a(2) k2 by simp
              have lz3: "loads_zero prog st3" if "loads_zero prog st1"
                using that a(3) l2 [OF that] ex3 f1(1)
                by (auto simp: loads_zero_iff put_load_apply mark_apply)
              have l3: "\<exists>x. loadvalues st3 = put_load (loadvalues st1) t i x"
                if "loads_zero prog st1"
                using a(3) l2 [OF that] by auto
              show ?thesis
              proof (cases "tso_continue fuel prog st3 S2")
                case (Inl e')
                with cont [of st3 S2] lt rg1 registered_keys [OF k3, of prog] ex3 m
                show ?thesis by auto
              next
                case (Inr q4)
                obtain st4 S4 where q4: "q4 = (st4, S4)" by (cases q4)
                from cont [of st3 S2] Inr q4
                have "executed st4 = executed st3" "keys (memory st4) = keys (memory st3)"
                  "loads_zero prog st3 \<Longrightarrow> loadvalues st4 = loadvalues st3"
                  by simp_all
                with ex3 k3 lz3 l3 a(3) m Inr q4 show ?thesis by auto
              qed
            qed
          qed
          show ?thesis
          proof (cases mid)
            case (Inl e')
            with midp g show ?thesis by simp
          next
            case (Inr q4)
            obtain st4 S4 where q4: "q4 = (st4, S4)" by (cases q4)
            note m = Inr [unfolded q4]
            from midp m have ex4: "executed st4 = executed st1"
              and k4: "keys (memory st4) = keys (memory st1)"
              and l4: "loads_zero prog st1 \<Longrightarrow> loadvalues st4 = loadvalues st1 \<or>
                   (\<not> store (prog ! t ! i) \<and>
                    (\<exists>x. loadvalues st4 = put_load (loadvalues st1) t i x))"
              by simp_all
            show ?thesis
            proof (cases "tso_reverse prog t i old st4")
              case (Inl e')
              from tso_reverse_fail [OF Inl] k4 f1(2)
              have "e' = Unknown_memvar" "mem (prog ! t ! i) \<notin> keys (memory st)" by auto
              with not_registered [OF ti] Inl m g show ?thesis by simp
            next
              case (Inr st5)
              note f5 = tso_reverse_frame [OF Inr]
              note sf = tso_step_frame [OF ti ne f1 ex4 k4 l4 f5]
              have "frame_ok prog (Suc fuel) st (gpe_tso fuel prog ps st5 S4)"
              proof (rule frame_ok_trans)
                show "executed st5 = executed st" using sf by simp
                show "keys (memory st5) = keys (memory st)" using sf by simp
                show "loadvalues st5 = loadvalues st" if "loads_zero prog st"
                  using that sf by simp
                show "frame_ok prog (Suc fuel) st5 (gpe_tso fuel prog ps st5 S4)"
                  by (rule Cons.IH [OF sub])
              qed
              with Inr m g show ?thesis by simp
            qed
          qed
        qed
      qed
    qed
  qed
qed

subsection \<open>Further facts, and the runs of three small programs\<close>

lemma unexecuted_le: "unexecuted prog ex \<le> length (positions prog)"
  by (simp add: unexecuted_def)




lemma main_solutions_char:
  assumes "length (positions prog) \<le> Suc fuel"
  shows "main_solutions fuel prog =
           Inr ({out. ibm_sol prog (start_ibm prog (loaded_state prog)) out},
                {out. tso_sol prog (start_tso prog (loaded_state prog)) out})"
  unfolding main_solutions_def
  by (rule run_models_char)
     (simp_all add: assms loaded_state_def registered_loaded zero_loads_def list_all_iff)

lemma main_solutions_subset:
  "{out. ibm_sol prog (start_ibm prog (loaded_state prog)) out} \<subseteq>
   {out. tso_sol prog (start_tso prog (loaded_state prog)) out}"
  by (rule relaxation_sub)
     (simp_all add: loaded_state_def registered_loaded zero_loads_def list_all_iff)

lemmas eval_defs = main_solutions_def run_models_def loaded_state_def loaded_memory_def
     get_possible_executions_ibm_def get_possible_executions_tso_def positions_def
     reset_executed_def build_po_graph_ibm_def build_po_graph_tso_def add_po_ibm_def add_po_tso_def
     remove_po_def po_set_def has_po_dependencies_def all_executed_def ibm_execute_def ibm_reverse_def
     tso_execute_def tso_again_def tso_reverse_def prevstore_pending_def is_prevstore_def
     is_prevstore_executed_def get_prevstore_def update_load_def add_possible_execution_ibm_def
     add_possible_execution_tso_def print_mem_def print_loads_def show_int_def digits10.simps
     upt_rec eval_nat_numeral gpe_ibm.simps(2) gpe_tso.simps(2)


lemma two_stores_load_solutions:
  "main_solutions 2 two_stores_load =
     Inr ({''[x]==2; x==2; ''}, {''[x]==2; x==2; '', ''[x]==2; x==1; ''})"
  unfolding two_stores_load_def by (simp add: eval_defs insert_commute)

lemma dekker_solutions:
  "main_solutions 3 dekker = Inr (dekker_outcomes, dekker_outcomes)"
  unfolding dekker_def dekker_outcomes_def by (simp add: eval_defs) auto

subsection \<open>The states in which main starts the searches\<close>

lemma start_ibm_inv':
  "registered prog (memory st0) \<Longrightarrow> zero_loads prog (loadvalues st0) \<Longrightarrow>
   ibm_inv prog (start_ibm prog st0)"
  unfolding start_ibm_def by (rule start_ibm_inv)

lemma start_tso_inv':
  "registered prog (memory st0) \<Longrightarrow> zero_loads prog (loadvalues st0) \<Longrightarrow>
   tso_inv prog (start_tso prog st0)"
  unfolding start_tso_def by (rule start_tso_inv)

lemma loaded_state_clean:
  "registered prog (memory (loaded_state prog))"
  "zero_loads prog (loadvalues (loaded_state prog))"
  by (simp_all add: loaded_state_def registered_loaded zero_loads_def list_all_iff)

lemma start_unexecuted:
  "unexecuted prog (executed (start_ibm prog st0)) = length (positions prog)"
  "unexecuted prog (executed (start_tso prog st0)) = length (positions prog)"
  by (simp_all add: start_ibm_def start_tso_def unexecuted_reset)

lemma store_load_positions: "positions store_load = [(0, 0), (0, 1)]"
  by (simp add: store_load_def positions_def upt_rec)

lemma two_stores_load_positions: "positions two_stores_load = [(0, 0), (0, 1), (0, 2)]"
  by (simp add: two_stores_load_def positions_def upt_rec)

lemma start_tso_apply:
  "executed (start_tso prog st0) t i =
     (if (t, i) \<in> set (positions prog) then False else executed st0 t i)"
  "memory (start_tso prog st0) = memory st0"
  "loadvalues (start_tso prog st0) = loadvalues st0"
  "po (start_tso prog st0) t d i =
     (if (t, i) \<in> set (positions prog) \<and> (d \<le> i \<or> d < length (prog ! t))
      then i < d \<and> tso_edge prog t d i else po st0 t d i)"
  by (simp_all add: start_tso_def reset_executed_apply build_po_graph_tso_def build_po_tso_fold)

subsection \<open>Single steps of the small programs\<close>

lemma store_load_nth:
  "store_load ! 0 ! 0 = \<lparr>store = True, mem = ''x'', val = 1\<rparr>"
  "store_load ! 0 ! 1 = \<lparr>store = False, mem = ''x'', val = 0\<rparr>"
  "store_load ! 0 ! Suc 0 = \<lparr>store = False, mem = ''x'', val = 0\<rparr>"
  "store_load ! 0 = [\<lparr>store = True, mem = ''x'', val = 1\<rparr>, \<lparr>store = False, mem = ''x'', val = 0\<rparr>]"
  "length store_load = 1" "length (store_load ! 0) = 2"
  by (simp_all add: store_load_def)

lemma store_load_start_fields:
  "memory store_load_start = [(''x'', 0)]"
  "executed store_load_start 0 0 = False"
  "executed store_load_start 0 1 = False"
  "executed store_load_start 0 (Suc 0) = False"
  "loadvalues store_load_start = (\<lambda>t i. 0)"
  by (simp_all add: store_load_start_def start_tso_apply loaded_state_def loaded_memory_def
      store_load_def positions_def upt_rec)

lemma store_load_pending: "pending store_load (executed store_load_start) 0 1"
  by (simp add: pending_def store_load_nth store_load_start_fields)

lemma store_load_forward:
  "tso_execute store_load 0 1 store_load_start = Inr (0, store_load_forwarded)"
  "tso_again store_load 0 1 store_load_forwarded = Inr (Some store_load_forwarded)"
  "loadvalues store_load_forwarded 0 1 = 1"
  "get_memvar (memory store_load_forwarded) ''x'' = Inr 0"
proof -
  have v: "tso_load_value store_load store_load_start 0 1 = Inr 1"
    using store_load_pending by (simp add: tso_load_value_def store_load_nth)
  show "tso_execute store_load 0 1 store_load_start = Inr (0, store_load_forwarded)"
    using v by (simp add: tso_execute_load store_load_nth store_load_start_fields
        store_load_forwarded_def)
  have "pending store_load (executed store_load_forwarded) 0 1"
    using store_load_pending by (simp add: store_load_forwarded_def pending_mark)
  then show "tso_again store_load 0 1 store_load_forwarded = Inr (Some store_load_forwarded)"
    by (simp add: tso_again_load store_load_nth)
       (simp add: store_load_forwarded_def put_load_twice)
  show "loadvalues store_load_forwarded 0 1 = 1"
    by (simp add: store_load_forwarded_def put_load_apply)
  show "get_memvar (memory store_load_forwarded) ''x'' = Inr 0"
    by (simp add: store_load_forwarded_def store_load_start_fields)
qed

lemma two_stores_load_nth:
  "two_stores_load ! 0 ! 0 = \<lparr>store = True, mem = ''x'', val = 1\<rparr>"
  "two_stores_load ! 0 ! 1 = \<lparr>store = True, mem = ''x'', val = 2\<rparr>"
  "two_stores_load ! 0 ! Suc 0 = \<lparr>store = True, mem = ''x'', val = 2\<rparr>"
  "two_stores_load ! 0 ! 2 = \<lparr>store = False, mem = ''x'', val = 0\<rparr>"
  "two_stores_load ! 0 ! Suc (Suc 0) = \<lparr>store = False, mem = ''x'', val = 0\<rparr>"
  "length two_stores_load = 1" "length (two_stores_load ! 0) = 3"
  by (simp_all add: two_stores_load_def)

lemma two_stores_start_fields:
  "memory two_stores_start = [(''x'', 0)]"
  "executed two_stores_start 0 i = (if i < 3 then False else executed (loaded_state two_stores_load) 0 i)"
  "loadvalues two_stores_start = (\<lambda>t i. 0)"
  "d < 3 \<Longrightarrow> i < 3 \<Longrightarrow> po two_stores_start 0 d i = (i < d \<and> tso_edge two_stores_load 0 d i)"
  by (simp_all add: two_stores_start_def start_tso_apply loaded_state_def loaded_memory_def
      two_stores_load_def in_positions)

lemma two_stores_load_stale:
  "tso_execute two_stores_load 0 0 two_stores_start = Inr (0, after_first_store)"
  "\<not> executed after_first_store 0 1"
  "\<not> has_po_dependencies two_stores_load (po after_first_store) 0 2"
  "get_prevstore two_stores_load 0 2 = Inr 2"
  "tso_execute two_stores_load 0 2 after_first_store = Inr (1, after_load)"
  "loadvalues after_load 0 2 = 1"
proof -
  show "tso_execute two_stores_load 0 0 two_stores_start = Inr (0, after_first_store)"
    by (simp add: tso_execute_store two_stores_load_nth two_stores_start_fields
        after_first_store_def)
  show "\<not> executed after_first_store 0 1"
    by (simp add: after_first_store_def mark_apply two_stores_start_fields)
  show "\<not> has_po_dependencies two_stores_load (po after_first_store) 0 2"
    by (simp add: has_po_dependencies_def two_stores_load_nth after_first_store_def
        remove_po_apply two_stores_start_fields tso_edge_def upt_rec eval_nat_numeral)
  show "get_prevstore two_stores_load 0 2 = Inr 2"
    by (simp add: get_prevstore_def two_stores_load_nth eval_nat_numeral)
  have "\<not> pending two_stores_load (executed after_first_store) 0 2"
    by (simp add: pending_def is_prevstore_executed_from_iff after_first_store_def
        mark_apply two_stores_load_nth) (use two_stores_load_nth in force)
  then have v: "tso_load_value two_stores_load after_first_store 0 2 = Inr 1"
    by (simp add: tso_load_value_def two_stores_load_nth after_first_store_def)
  show "tso_execute two_stores_load 0 2 after_first_store = Inr (1, after_load)"
    using v by (simp add: tso_execute_load two_stores_load_nth after_load_def)
       (simp add: after_first_store_def)
  show "loadvalues after_load 0 2 = 1"
    by (simp add: after_load_def put_load_apply)
qed

section \<open>The claims\<close>

text \<open>
  C1. The single-thread program \<open>st x 1; st x 2; ld x\<close>. In program order the load
  observes 2, and the store-atomic search records this outcome only. The relaxed
  search records a second outcome, in which the load observes 1: the load runs after the
  first store and before the second, \<open>is_prevstore_executed\<close> answers true because the
  first store is executed, and the load reads memory instead of the value of the second
  store.
\<close>

theorem single_thread_relaxed_outcomes:
  "main_solutions 2 two_stores_load =
     Inr ({''[x]==2; x==2; ''}, {''[x]==2; x==2; '', ''[x]==2; x==1; ''})"
  by (rule two_stores_load_solutions)

text \<open>
  C2, as stated, fails: for thread 1 = \<open>st x 1; ld y\<close> and thread 2 = \<open>st y 1; ld x\<close> the
  outcome in which both loads observe 0 is in \<open>solutions_ibm\<close>. \<open>add_po_ibm\<close> orders a load
  after an earlier store only when both name the same location, so each load may run
  before the store of its thread.
\<close>

theorem dekker_both_zero_store_atomic:
  "main_solutions 3 dekker = Inr (dekker_outcomes, dekker_outcomes) \<and>
   ''[x]==1; [y]==1; y==0; x==0; '' \<in> dekker_outcomes"
  using dekker_solutions by (simp add: dekker_outcomes_def)

text \<open>
  C2, amended. For that program the outcome in which both loads observe 0 is in
  \<open>solutions_ibm\<close> and in \<open>solutions_tso\<close>, and the report prints it without a star.
\<close>

theorem dekker_both_zero_in_both:
  "\<exists>solutions_ibm solutions_tso.
     main_solutions 3 dekker = Inr (solutions_ibm, solutions_tso) \<and>
     ''[x]==1; [y]==1; y==0; x==0; '' \<in> solutions_ibm \<and>
     ''[x]==1; [y]==1; y==0; x==0; '' \<in> solutions_tso \<and>
     \<not> starred solutions_ibm ''[x]==1; [y]==1; y==0; x==0; ''"
  using dekker_solutions by (simp add: dekker_outcomes_def starred_def)

text \<open>
  C3. The run of \<open>main\<close> on any program, with a depth bound of at least the number of
  instructions minus one, returns the two solution sets, and \<open>solutions_ibm\<close> is a
  subset of \<open>solutions_tso\<close>.
\<close>

theorem relaxation_monotone:
  assumes "length (positions prog) \<le> Suc fuel"
  shows "\<exists>solutions_ibm solutions_tso.
           main_solutions fuel prog = Inr (solutions_ibm, solutions_tso) \<and>
           solutions_ibm \<subseteq> solutions_tso"
  using main_solutions_char [OF assms] main_solutions_subset [of prog] by simp

theorem relaxation_monotone_witness:
  "length (positions two_stores_load) \<le> Suc 2 \<and>
   (\<exists>solutions_ibm solutions_tso.
      main_solutions 2 two_stores_load = Inr (solutions_ibm, solutions_tso) \<and>
      solutions_ibm \<subseteq> solutions_tso)"
proof -
  have h: "length (positions two_stores_load) \<le> Suc 2"
    by (simp add: two_stores_load_positions)
  show ?thesis
    using h relaxation_monotone [OF h] by simp
qed




text \<open>
  C5. The program \<open>st x 1; st x 2; ld x\<close> in the relaxed search, after the first store
  has executed. The load is eligible; the nearest preceding store to \<open>x\<close>, \<open>st x 2\<close>, is
  not executed, and \<open>get_prevstore\<close> gives its value 2. The load records 1, the value in
  memory: \<open>is_prevstore_executed\<close> goes on past the store that is not executed and answers
  true for the earlier one.
\<close>

theorem load_reads_memory_past_pending_store:
  "tso_execute two_stores_load 0 0 two_stores_start = Inr (0, after_first_store) \<and>
   \<not> executed after_first_store 0 1 \<and>
   \<not> has_po_dependencies two_stores_load (po after_first_store) 0 2 \<and>
   get_prevstore two_stores_load 0 2 = Inr 2 \<and>
   tso_execute two_stores_load 0 2 after_first_store = Inr (1, after_load) \<and>
   loadvalues after_load 0 2 = 1"
  using two_stores_load_stale by simp

text \<open>
  C6. After \<open>build_po_graph_ibm\<close>, for instructions \<open>i < d\<close> of a thread, \<open>po[t][d][i]\<close>
  holds iff \<open>i\<close> is a store and \<open>d\<close> is a store or names the same location, or \<open>i\<close> is a
  load. After \<open>build_po_graph_tso\<close> it holds iff \<open>i\<close> and \<open>d\<close> are stores or \<open>i\<close> is a load,
  which is the store-atomic graph without the edges from a load back to a store. For
  \<open>d \<le> i\<close> there is no edge in either graph. This holds whatever the matrix held before.
\<close>

theorem build_po_graph_edges:
  assumes "t < length prog" and "d < length (prog ! t)" and "i < length (prog ! t)"
  shows "(i < d \<longrightarrow>
            (build_po_graph_ibm prog p t d i \<longleftrightarrow>
               store (prog ! t ! i) \<and>
                 (store (prog ! t ! d) \<or> mem (prog ! t ! d) = mem (prog ! t ! i))
               \<or> \<not> store (prog ! t ! i)) \<and>
            (build_po_graph_tso prog p t d i \<longleftrightarrow>
               store (prog ! t ! i) \<and> store (prog ! t ! d) \<or> \<not> store (prog ! t ! i)) \<and>
            (build_po_graph_tso prog p t d i \<longleftrightarrow>
               build_po_graph_ibm prog p t d i \<and>
               \<not> (store (prog ! t ! i) \<and> \<not> store (prog ! t ! d)))) \<and>
         (d \<le> i \<longrightarrow>
            \<not> build_po_graph_ibm prog p t d i \<and> \<not> build_po_graph_tso prog p t d i)"
  using assms
  by (auto simp: build_po_graph_ibm_def build_po_graph_tso_def build_po_ibm_fold
      build_po_tso_fold in_positions ibm_edge_def tso_edge_def)

theorem build_po_graph_edges_witness:
  "0 < length dekker \<and> 1 < length (dekker ! 0) \<and> 0 < length (dekker ! 0) \<and>
   \<not> build_po_graph_ibm dekker (\<lambda>t d i. False) 0 1 0 \<and>
   \<not> build_po_graph_tso dekker (\<lambda>t d i. False) 0 1 0"
proof -
  have h: "0 < length dekker" "1 < length (dekker ! 0)" "0 < length (dekker ! 0)"
    by (simp_all add: dekker_def)
  show ?thesis
    using h build_po_graph_edges [OF h, of "\<lambda>t d i. False"] by (simp add: dekker_def)
qed

text \<open>
  C7. A call of either search in a state that satisfies the invariant of that search
  returns exactly the state in which it was entered: the same dependency matrix, executed
  markers, memory and load values. The same holds after any part of the loop, so every
  iteration starts from the state of entry. The invariant holds in the state that \<open>main\<close>
  passes to a search (lemmas \<open>start_ibm_inv'\<close> and \<open>start_tso_inv'\<close>), and it holds again in
  the state of every recursive call, which has one instruction less to execute.
\<close>

theorem search_restores_state:
  assumes "ibm_inv prog st" and "tso_inv prog st'"
    and "unexecuted prog (executed st) \<le> Suc fuel"
    and "unexecuted prog (executed st') \<le> Suc fuel"
  shows "(\<exists>sols'. get_possible_executions_ibm fuel prog st sols = Inr (st, sols')) \<and>
         (\<exists>sols'. get_possible_executions_tso fuel prog st' sols = Inr (st', sols')) \<and>
         (\<forall>ps. set ps \<subseteq> set (positions prog) \<longrightarrow>
            (\<exists>sols'. gpe_ibm fuel prog ps st sols = Inr (st, sols')) \<and>
            (\<exists>sols'. gpe_tso fuel prog ps st' sols = Inr (st', sols'))) \<and>
         (\<forall>t i. t < length prog \<and> i < length (prog ! t) \<and> \<not> executed st t i \<longrightarrow>
            (\<exists>old st1. ibm_execute prog t i st = Inr (old, st1) \<and> ibm_inv prog st1 \<and>
               unexecuted prog (executed st1) < unexecuted prog (executed st))) \<and>
         (\<forall>t i. t < length prog \<and> i < length (prog ! t) \<and> \<not> executed st' t i \<longrightarrow>
            (\<exists>old st1. tso_execute prog t i st' = Inr (old, st1) \<and> tso_inv prog st1 \<and>
               unexecuted prog (executed st1) < unexecuted prog (executed st')))"
proof (intro conjI allI impI)
  show "\<exists>sols'. get_possible_executions_ibm fuel prog st sols = Inr (st, sols')"
    unfolding get_possible_executions_ibm_def
    using gpe_ibm_char [OF assms(1,3) subset_refl] by blast
  show "\<exists>sols'. get_possible_executions_tso fuel prog st' sols = Inr (st', sols')"
    unfolding get_possible_executions_tso_def
    using gpe_tso_char [OF assms(2,4) subset_refl] by blast
  show "\<exists>sols'. gpe_ibm fuel prog ps st sols = Inr (st, sols')"
    if "set ps \<subseteq> set (positions prog)" for ps
    using gpe_ibm_char [OF assms(1,3) that] by blast
  show "\<exists>sols'. gpe_tso fuel prog ps st' sols = Inr (st', sols')"
    if "set ps \<subseteq> set (positions prog)" for ps
    using gpe_tso_char [OF assms(2,4) that] by blast
  show "\<exists>old st1. ibm_execute prog t i st = Inr (old, st1) \<and> ibm_inv prog st1 \<and>
               unexecuted prog (executed st1) < unexecuted prog (executed st)"
    if "t < length prog \<and> i < length (prog ! t) \<and> \<not> executed st t i" for t i
  proof -
    from that have ti: "t < length prog" "i < length (prog ! t)" and ne: "\<not> executed st t i"
      by auto
    from ibm_step [OF assms(1) ti ne] obtain old st1 where
      "ibm_execute prog t i st = Inr (old, st1)" "ibm_inv prog st1"
      "executed st1 = mark (executed st) t i True"
      by blast
    with unexecuted_mark' [of t prog i "executed st", OF ti ne] show ?thesis by auto
  qed
  show "\<exists>old st1. tso_execute prog t i st' = Inr (old, st1) \<and> tso_inv prog st1 \<and>
               unexecuted prog (executed st1) < unexecuted prog (executed st')"
    if "t < length prog \<and> i < length (prog ! t) \<and> \<not> executed st' t i" for t i
  proof -
    from that have ti: "t < length prog" "i < length (prog ! t)" and ne: "\<not> executed st' t i"
      by auto
    from tso_step [OF assms(2) ti ne] obtain old st1 where
      "tso_execute prog t i st' = Inr (old, st1)" "tso_inv prog st1"
      "executed st1 = mark (executed st') t i True"
      by blast
    with unexecuted_mark' [of t prog i "executed st'", OF ti ne] show ?thesis by auto
  qed
qed

theorem search_restores_state_witness:
  "ibm_inv store_load (start_ibm store_load (loaded_state store_load)) \<and>
   tso_inv store_load (start_tso store_load (loaded_state store_load)) \<and>
   unexecuted store_load (executed (start_ibm store_load (loaded_state store_load))) \<le> Suc 1 \<and>
   unexecuted store_load (executed (start_tso store_load (loaded_state store_load))) \<le> Suc 1 \<and>
   (\<exists>sols'. get_possible_executions_ibm 1 store_load
               (start_ibm store_load (loaded_state store_load)) {} =
             Inr (start_ibm store_load (loaded_state store_load), sols')) \<and>
   (\<exists>sols'. get_possible_executions_tso 1 store_load
               (start_tso store_load (loaded_state store_load)) {} =
             Inr (start_tso store_load (loaded_state store_load), sols'))"
proof -
  have h1: "ibm_inv store_load (start_ibm store_load (loaded_state store_load))"
    by (intro start_ibm_inv' loaded_state_clean)
  have h2: "tso_inv store_load (start_tso store_load (loaded_state store_load))"
    by (intro start_tso_inv' loaded_state_clean)
  have h3: "unexecuted store_load (executed (start_ibm store_load (loaded_state store_load)))
      \<le> Suc 1"
    by (simp add: start_unexecuted store_load_positions)
  have h4: "unexecuted store_load (executed (start_tso store_load (loaded_state store_load)))
      \<le> Suc 1"
    by (simp add: start_unexecuted store_load_positions)
  show ?thesis
    using h1 h2 h3 h4 search_restores_state [OF h1 h2 h3 h4, of "{}"] by blast
qed

text \<open>
  C8. When every location named by an instruction of the program is a registered memory
  variable, neither search ends in the failure of \<open>get_memvar\<close> or \<open>update_memvar\<close>,
  whatever the state of the other globals and whatever the depth bound. The memory that
  \<open>main\<close> builds with \<open>insert_memvar\<close> registers every location (lemma
  \<open>registered_loaded\<close>).
\<close>

theorem memvar_lookups_succeed:
  assumes "registered prog (memory st)"
  shows "get_possible_executions_ibm fuel prog st sols \<noteq> Inl Unknown_memvar \<and>
         get_possible_executions_tso fuel prog st sols \<noteq> Inl Unknown_memvar"
proof
  have "frame_ok prog (Suc fuel) st (gpe_ibm fuel prog (positions prog) st sols)"
    by (rule gpe_ibm_frame) simp
  with assms show "get_possible_executions_ibm fuel prog st sols \<noteq> Inl Unknown_memvar"
    unfolding get_possible_executions_ibm_def by auto
  have "frame_ok prog (Suc fuel) st (gpe_tso fuel prog (positions prog) st sols)"
    by (rule gpe_tso_frame) simp
  with assms show "get_possible_executions_tso fuel prog st sols \<noteq> Inl Unknown_memvar"
    unfolding get_possible_executions_tso_def by auto
qed

theorem memvar_lookups_succeed_witness:
  "registered dekker (memory (loaded_state dekker)) \<and>
   get_possible_executions_ibm 3 dekker (loaded_state dekker) {} \<noteq> Inl Unknown_memvar \<and>
   get_possible_executions_tso 3 dekker (loaded_state dekker) {} \<noteq> Inl Unknown_memvar"
proof -
  have h: "registered dekker (memory (loaded_state dekker))"
    by (simp add: registered_def keys_def loaded_state_def loaded_memory_def dekker_def
        positions_def upt_rec)
  show ?thesis
    using h memvar_lookups_succeed [OF h] by simp
qed

text \<open>
  C9. With a depth bound of at least the number of instructions minus one, neither
  search stops at the bound, in any state: the nesting of recursive calls never gets
  deeper than the number of instructions. Every recursive call is made in a state where
  strictly fewer instructions are unmarked than in the state of its caller.
\<close>

theorem searches_terminate:
  assumes "length (positions prog) \<le> Suc fuel"
  shows "get_possible_executions_ibm fuel prog st sols \<noteq> Inl Out_of_fuel \<and>
         get_possible_executions_tso fuel prog st sols \<noteq> Inl Out_of_fuel \<and>
         (\<forall>t i old st1. t < length prog \<and> i < length (prog ! t) \<and> \<not> executed st t i \<and>
            (ibm_execute prog t i st = Inr (old, st1) \<or>
             tso_execute prog t i st = Inr (old, st1)) \<longrightarrow>
            unexecuted prog (executed st1) < unexecuted prog (executed st))"
proof (intro conjI allI impI)
  have b: "\<not> Suc fuel < unexecuted prog (executed st)"
    using assms unexecuted_le [of prog "executed st"] by simp
  have "frame_ok prog (Suc fuel) st (gpe_ibm fuel prog (positions prog) st sols)"
    by (rule gpe_ibm_frame) simp
  with b show "get_possible_executions_ibm fuel prog st sols \<noteq> Inl Out_of_fuel"
    unfolding get_possible_executions_ibm_def by auto
  have "frame_ok prog (Suc fuel) st (gpe_tso fuel prog (positions prog) st sols)"
    by (rule gpe_tso_frame) simp
  with b show "get_possible_executions_tso fuel prog st sols \<noteq> Inl Out_of_fuel"
    unfolding get_possible_executions_tso_def by auto
  fix t i old st1
  assume a: "t < length prog \<and> i < length (prog ! t) \<and> \<not> executed st t i \<and>
            (ibm_execute prog t i st = Inr (old, st1) \<or>
             tso_execute prog t i st = Inr (old, st1))"
  then have "ibm_execute prog t i st = Inr (old, st1) \<or>
             tso_execute prog t i st = Inr (old, st1)"
    by simp
  then have "executed st1 = mark (executed st) t i True"
  proof
    assume "ibm_execute prog t i st = Inr (old, st1)"
    then show ?thesis by (rule ibm_execute_frame(1))
  next
    assume "tso_execute prog t i st = Inr (old, st1)"
    then show ?thesis by (rule tso_execute_frame(1))
  qed
  with a unexecuted_mark' [of t prog i "executed st"]
  show "unexecuted prog (executed st1) < unexecuted prog (executed st)"
    by simp
qed

theorem searches_terminate_witness:
  "length (positions dekker) \<le> Suc 3 \<and>
   get_possible_executions_ibm 3 dekker (loaded_state dekker) {} \<noteq> Inl Out_of_fuel \<and>
   get_possible_executions_tso 3 dekker (loaded_state dekker) {} \<noteq> Inl Out_of_fuel"
proof -
  have h: "length (positions dekker) \<le> Suc 3"
    by (simp add: dekker_def positions_def)
  show ?thesis
    using h searches_terminate [OF h] by simp
qed

text \<open>
  C10. If every instruction that is not marked executed has load value 0, then the same
  holds in the state in which either search makes a recursive call, in the state that the
  relaxed search prepares for its second recursion, and in the state in which a call, or
  any part of its loop, returns; and the load values on return are those of entry, so
  writing 0 in the undo restores the value the load had before the step.
\<close>

theorem unexecuted_loads_zero:
  assumes "loads_zero prog st"
  shows "(\<forall>t i old st1. t < length prog \<and> i < length (prog ! t) \<and> \<not> executed st t i \<and>
            (ibm_execute prog t i st = Inr (old, st1) \<or>
             tso_execute prog t i st = Inr (old, st1)) \<longrightarrow>
            loads_zero prog st1 \<and> loadvalues st t i = 0) \<and>
         (\<forall>t i st3. executed st t i \<and> tso_again prog t i st = Inr (Some st3) \<longrightarrow>
            loads_zero prog st3) \<and>
         (\<forall>fuel ps sols st' sols'. set ps \<subseteq> set (positions prog) \<and>
            (gpe_ibm fuel prog ps st sols = Inr (st', sols') \<or>
             gpe_tso fuel prog ps st sols = Inr (st', sols')) \<longrightarrow>
            loads_zero prog st' \<and> loadvalues st' = loadvalues st)"
proof (intro conjI allI impI)
  fix t i old st1
  assume a: "t < length prog \<and> i < length (prog ! t) \<and> \<not> executed st t i \<and>
            (ibm_execute prog t i st = Inr (old, st1) \<or>
             tso_execute prog t i st = Inr (old, st1))"
  then have "ibm_execute prog t i st = Inr (old, st1) \<or>
             tso_execute prog t i st = Inr (old, st1)"
    by simp
  then have "executed st1 = mark (executed st) t i True \<and>
        (loadvalues st1 = loadvalues st \<or>
         (\<not> store (prog ! t ! i) \<and> (\<exists>x. loadvalues st1 = put_load (loadvalues st) t i x)))"
  proof
    assume "ibm_execute prog t i st = Inr (old, st1)"
    from ibm_execute_frame(1,3) [OF this] show ?thesis by simp
  next
    assume "tso_execute prog t i st = Inr (old, st1)"
    from tso_execute_frame(1,3) [OF this] show ?thesis by simp
  qed
  with assms show "loads_zero prog st1"
    by (intro loads_zero_marked [of prog st st1 t i]) auto
  from a assms show "loadvalues st t i = 0"
    by (simp add: loads_zero_iff)
next
  fix t i st3
  assume a: "executed st t i \<and> tso_again prog t i st = Inr (Some st3)"
  then have "executed st3 = executed st"
    and "\<exists>x. loadvalues st3 = put_load (loadvalues st) t i x"
    using tso_again_frame [of prog t i st st3] by auto
  with a assms show "loads_zero prog st3"
    by (auto simp: loads_zero_iff put_load_apply)
next
  fix fuel ps sols st' sols'
  assume a: "set ps \<subseteq> set (positions prog) \<and>
            (gpe_ibm fuel prog ps st sols = Inr (st', sols') \<or>
             gpe_tso fuel prog ps st sols = Inr (st', sols'))"
  then have "frame_ok prog (Suc fuel) st (Inr (st', sols'))"
    using gpe_ibm_frame [of ps prog fuel st sols] gpe_tso_frame [of ps prog fuel st sols]
    by auto
  with assms have f: "executed st' = executed st" "loadvalues st' = loadvalues st"
    by simp_all
  then show "loadvalues st' = loadvalues st" by simp
  from f assms show "loads_zero prog st'"
    by (simp add: loads_zero_cong [of st' st])
qed

theorem unexecuted_loads_zero_witness:
  "loads_zero store_load store_load_start \<and>
   (\<exists>old st1. tso_execute store_load 0 1 store_load_start = Inr (old, st1) \<and>
      loads_zero store_load st1 \<and> loadvalues store_load_start 0 1 = 0) \<and>
   (\<exists>st' sols'. gpe_tso 1 store_load (positions store_load) store_load_start {} =
        Inr (st', sols') \<and>
      loads_zero store_load st' \<and> loadvalues st' = loadvalues store_load_start)"
proof -
  have inv: "tso_inv store_load store_load_start"
    unfolding store_load_start_def by (intro start_tso_inv' loaded_state_clean)
  then have h: "loads_zero store_load store_load_start"
    by (simp add: tso_inv_def)
  note th = unexecuted_loads_zero [OF h]
  have e: "tso_execute store_load 0 1 store_load_start = Inr (0, store_load_forwarded)"
    by (rule store_load_forward(1))
  have "0 < length store_load \<and> 1 < length (store_load ! 0) \<and>
      \<not> executed store_load_start 0 1 \<and>
      (ibm_execute store_load 0 1 store_load_start = Inr (0, store_load_forwarded) \<or>
       tso_execute store_load 0 1 store_load_start = Inr (0, store_load_forwarded))"
    using e by (simp add: store_load_nth store_load_start_fields)
  with th have c1: "loads_zero store_load store_load_forwarded \<and>
      loadvalues store_load_start 0 1 = 0"
    by blast
  have b: "unexecuted store_load (executed store_load_start) \<le> Suc 1"
    by (simp add: store_load_start_def start_unexecuted store_load_positions)
  from gpe_tso_char [OF inv b subset_refl, of "{}"] obtain S where
    g: "gpe_tso 1 store_load (positions store_load) store_load_start {} =
          Inr (store_load_start, S)"
    by blast
  then have "set (positions store_load) \<subseteq> set (positions store_load) \<and>
      (gpe_ibm 1 store_load (positions store_load) store_load_start {} =
         Inr (store_load_start, S) \<or>
       gpe_tso 1 store_load (positions store_load) store_load_start {} =
         Inr (store_load_start, S))"
    by simp
  with th have c3: "loads_zero store_load store_load_start \<and>
      loadvalues store_load_start = loadvalues store_load_start"
    by blast
  show ?thesis
    using h e c1 g c3 by blast
qed

end
